theory Spec2Isabelle
  imports Main "HOL-Library.Word" "HOL-Library.Char_ord" "HOL-Library.List_Lexorder"
begin

section \<open>Worker directory records\<close>

text \<open>
  Modelled from the spec: the declarations of \<open>AugmentorInstanceInfo\<close> and
  \<open>AugmentorInfo\<close> are in the header, which is not among the sources. The spec gives
  an instance the members \<open>addr\<close>, \<open>maxInFlight\<close> and \<open>numInFlight\<close>, an
  augmentor a \<open>name\<close> and a sequence of \<open>instances\<close>. The source keeps the two
  counters in \<open>int\<close> variables (\<open>minInFlights\<close> of \<open>pickInstance\<close>, which
  starts at \<open>std::numeric_limits<int>::max()\<close>, and \<open>maxInFlight\<close> of
  \<open>doConfig\<close>): they are 32-bit words read as two's complement, and their
  comparisons are the signed ones.
\<close>

type_synonym cint = "32 word"

definition INT_MAX :: cint where
  "INT_MAX = 2147483647"

definition INT_MIN :: cint where
  "INT_MIN = - 2147483648"

record AugmentorInstanceInfo =
  addr :: string
  numInFlight :: cint
  maxInFlight :: cint

record AugmentorInfo =
  name :: string
  instances :: "AugmentorInstanceInfo list"

section \<open>pickInstance\<close>

text \<open>
  The loop of \<open>pickInstance\<close> over \<open>aug.instances\<close>. The pointer \<open>instance\<close> is
  the position of the pointed-to element in the vector (\<open>None\<close> is \<open>nullptr\<close>);
  \<open>i\<close> is the position of the iterator.
\<close>

fun pickInstance_loop ::
  "AugmentorInstanceInfo list \<Rightarrow> nat \<Rightarrow> nat option \<Rightarrow> cint \<Rightarrow> nat option" where
  "pickInstance_loop [] i instance minInFlights = instance"
| "pickInstance_loop (it # rest) i instance minInFlights =
     (if minInFlights \<le>s numInFlight it then pickInstance_loop rest (Suc i) instance minInFlights
      else if maxInFlight it \<le>s numInFlight it then pickInstance_loop rest (Suc i) instance minInFlights
      else pickInstance_loop rest (Suc i) (Some i) (numInFlight it))"

definition bump_instance :: "AugmentorInfo \<Rightarrow> nat \<Rightarrow> AugmentorInfo" where
  "bump_instance aug i =
     aug\<lparr>instances := (instances aug)
        [i := (instances aug ! i)\<lparr>numInFlight := numInFlight (instances aug ! i) + 1\<rparr>]\<rparr>"

definition pickInstance :: "AugmentorInfo \<Rightarrow> nat option \<times> AugmentorInfo" where
  "pickInstance aug =
     (case pickInstance_loop (instances aug) 0 None INT_MAX of
        None \<Rightarrow> (None, aug)
      | Some i \<Rightarrow> (Some i, bump_instance aug i))"

definition has_capacity :: "AugmentorInstanceInfo \<Rightarrow> bool" where
  "has_capacity it = (numInFlight it <s maxInFlight it)"

text \<open>
  The selection rule of the specification, as a predicate on a position \<open>k\<close> of the
  instance sequence: the instance at \<open>k\<close> has spare capacity, no instance with spare
  capacity has fewer requests in flight, and every earlier instance with spare capacity
  has strictly more.
\<close>

definition first_least :: "AugmentorInstanceInfo list \<Rightarrow> nat \<Rightarrow> bool" where
  "first_least xs k =
     (k < length xs \<and> has_capacity (xs ! k)
      \<and> (\<forall>j < length xs. has_capacity (xs ! j) \<longrightarrow> numInFlight (xs ! k) \<le>s numInFlight (xs ! j))
      \<and> (\<forall>j < k. has_capacity (xs ! j) \<longrightarrow> numInFlight (xs ! k) <s numInFlight (xs ! j)))"



section \<open>Errors\<close>

text \<open>
  What a handler can do instead of returning: throw a C++ exception (with its message),
  or run into undefined behaviour, of which the sources have these kinds: reading a
  \<open>std::vector\<close> with \<open>operator[]\<close> past its end or writing outside a buffer,
  dereferencing the null pointer that \<open>augmentors[name]\<close> creates for a name that is
  not in the directory, overflowing an \<open>int\<close>, reading through an iterator that its
  container has invalidated (by \<open>erase\<close>, or by giving up the buffer it points
  into), and calling \<open>std::copy\<close> with a destination inside the source range.
\<close>

datatype error =
    Exception string
  | OutOfBounds
  | NullAugmentor
  | SignedOverflow
  | InvalidatedIterator
  | OverlappingCopy

definition vec_index :: "'a list \<Rightarrow> nat \<Rightarrow> error + 'a" where
  "vec_index v i = (if i < length v then Inr (v ! i) else Inl OutOfBounds)"

definition vec_at :: "'a list \<Rightarrow> nat \<Rightarrow> error + 'a" where
  "vec_at v i = (if i < length v then Inr (v ! i) else Inl (Exception ''vector::at''))"

section \<open>Ordered maps and sets of strings\<close>

text \<open>
  A \<open>std::map<std::string, V>\<close> is an association list kept in the order of its keys,
  a \<open>std::set<std::string>\<close> a list kept sorted and free of duplicates
  (\<open>insort_insert\<close> is \<open>insert\<close>, \<open>removeAll\<close> is \<open>erase\<close>). Strings compare as
  \<open>std::string\<close> does: lexicographically, byte by byte.
\<close>

fun map_put :: "string \<Rightarrow> 'v \<Rightarrow> (string \<times> 'v) list \<Rightarrow> (string \<times> 'v) list" where
  "map_put k v [] = [(k, v)]"
| "map_put k v ((k', v') # m) =
     (if k = k' then (k, v) # m
      else if k < k' then (k, v) # (k', v') # m
      else (k', v') # map_put k v m)"

definition map_erase :: "string \<Rightarrow> (string \<times> 'v) list \<Rightarrow> (string \<times> 'v) list" where
  "map_erase k m = filter (\<lambda>kv. fst kv \<noteq> k) m"

text \<open>
  A change made through an iterator or a reference obtained by looking a key up: the
  value found, that of the first binding of the key, is changed in place.
\<close>

fun map_modify :: "string \<Rightarrow> ('v \<Rightarrow> 'v) \<Rightarrow> (string \<times> 'v) list \<Rightarrow> (string \<times> 'v) list" where
  "map_modify k f [] = []"
| "map_modify k f ((k', v) # m) = (if k = k' then (k', f v) # m else (k', v) # map_modify k f m)"

text \<open>\<open>erase(it)\<close> with the iterator that \<open>find\<close> returned for the key.\<close>

fun erase_found :: "string \<Rightarrow> (string \<times> 'v) list \<Rightarrow> (string \<times> 'v) list" where
  "erase_found k [] = []"
| "erase_found k ((k', v) # m) = (if k = k' then m else (k', v) # erase_found k m)"

section \<open>Auctions and entries\<close>

text \<open>
  Modelled from the spec: the declarations of \<open>AugmentationInfo\<close>, \<open>Auction\<close>,
  \<open>PotentialBidder\<close> and \<open>Entry\<close> are in headers that are not among the sources;
  the records have the members that the spec lists and the source reads.
  Of a bidder's \<open>AgentConfig\<close> only the names of its augmentation configurations are
  read. The type \<open>'l\<close> is \<open>AugmentationList\<close>, which the dispatcher only creates
  empty, decodes and merges. An auction id is the string it is built from. A \<open>Date\<close>
  is an integer time stamp: only its order is used. The callback \<open>onFinished\<close> is a
  handle; calling it is recorded, with its argument, in the field \<open>fired\<close> of the
  dispatcher.
\<close>

record PotentialBidder =
  agent :: string
  config_augmentations :: "string list"

record 'l Auction =
  auction_id :: string
  requestStrFormat :: string
  requestStr :: string
  augmentations :: "(string \<times> 'l) list"

record 'l AugmentationInfo =
  auction :: "'l Auction"
  potentialGroups :: "PotentialBidder list list"

record 'l Entry =
  info :: "'l AugmentationInfo"
  outstanding :: "string list"
  onFinished :: nat
  timeout :: int

text \<open>
  A frame handed to the transport: \<open>AUGMENT\<close> with the address of the instance, the
  name of the augmentor, the auction id, the format and the text of the request and the
  set of agents (before its encoding by the store writer; the version and the time stamp
  of the frame are left out), or \<open>CONFIGOK\<close> with the address.
\<close>

datatype outmsg =
    AUGMENT string string string string string "string list"
  | CONFIGOK string

section \<open>The deadline index\<close>

text \<open>
  Modelled from the spec: the class \<open>TimeoutMap\<close> of the member \<open>augmenting\<close> is not
  among the sources. It is a mapping from auction id to entry with the deadline of each
  entry; \<open>insert\<close> fails when the id is present; \<open>earliest\<close> is the least deadline
  (\<open>None\<close> when there is no entry); \<open>expire\<close> pops every entry whose deadline is at
  most \<open>now\<close>, in the order of the deadlines, and hands it to the callback. The
  callback of \<open>checkExpiries\<close> always answers with the null date, so an expired entry
  is dropped.
\<close>

type_synonym 'e timeout_map = "(string \<times> 'e \<times> int) list"

definition tm_count :: "string \<Rightarrow> 'e timeout_map \<Rightarrow> bool" where
  "tm_count k m = (k \<in> set (map fst m))"

definition tm_insert :: "string \<Rightarrow> 'e \<Rightarrow> int \<Rightarrow> 'e timeout_map \<Rightarrow> error + 'e timeout_map" where
  "tm_insert k e t m =
     (if tm_count k m then Inl (Exception ''TimeoutMap: duplicate key'')
      else Inr (map_put k (e, t) m))"

definition tm_find :: "string \<Rightarrow> 'e timeout_map \<Rightarrow> ('e \<times> int) option" where
  "tm_find k m = map_of m k"

definition tm_erase :: "string \<Rightarrow> 'e timeout_map \<Rightarrow> 'e timeout_map" where
  "tm_erase k m = erase_found k m"

fun tm_earliest :: "'e timeout_map \<Rightarrow> int option" where
  "tm_earliest [] = None"
| "tm_earliest ((k, e, t) # m) =
     (case tm_earliest m of None \<Rightarrow> Some t | Some t' \<Rightarrow> Some (min t t'))"

definition tm_expired :: "int \<Rightarrow> 'e timeout_map \<Rightarrow> (string \<times> 'e \<times> int) list" where
  "tm_expired now m = sort_key (\<lambda>n. snd (snd n)) (filter (\<lambda>n. snd (snd n) \<le> now) m)"

definition tm_remaining :: "int \<Rightarrow> 'e timeout_map \<Rightarrow> 'e timeout_map" where
  "tm_remaining now m = filter (\<lambda>n. \<not> snd (snd n) \<le> now) m"

section \<open>The dispatcher\<close>

text \<open>
  The members of \<open>AugmentationLoop\<close>. \<open>augmentors\<close> is the worker directory;
  \<open>allAugmentors\<close> is the published snapshot, of which only the names are read;
  \<open>retired\<close> are the replaced snapshots whose deletion \<open>allAugmentorsGc\<close> has
  deferred, the newest first; \<open>hits\<close> are the names of the counters recorded and
  \<open>sent\<close> the frames handed to the transport, both in order.
\<close>

record 'l dispatcher =
  augmentors :: "(string \<times> AugmentorInfo) list"
  allAugmentors :: "string list"
  retired :: "string list list"
  inbox :: "'l Entry list"
  augmenting :: "'l Entry timeout_map"
  idle :: bool
  fired :: "(nat \<times> 'l AugmentationInfo) list"
  hits :: "string list"
  sent :: "outmsg list"

text \<open>
  The collaborators that are not part of the dispatcher: the parser of the time stamp of
  a response (\<open>False\<close> when it throws), the JSON decoder of a payload (\<open>None\<close> when
  \<open>Json::parse\<close> or \<open>AugmentationList::fromJson\<close> throws), the
  default-constructed \<open>AugmentationList\<close> and its \<open>mergeWith\<close>.
\<close>

record 'l externals =
  parseSecondsSinceEpoch :: "string \<Rightarrow> bool"
  parseAugmentationList :: "string \<Rightarrow> 'l option"
  emptyAugmentationList :: 'l
  mergeWith :: "'l \<Rightarrow> 'l \<Rightarrow> 'l"

text \<open>The dispatcher as its constructor leaves it.\<close>

definition init :: "'l dispatcher" where
  "init = \<lparr>augmentors = [], allAugmentors = [], retired = [], inbox = [], augmenting = [],
            idle = True, fired = [], hits = [], sent = []\<rparr>"

subsection \<open>updateAllAugmentors\<close>

definition updateAllAugmentors :: "'l dispatcher \<Rightarrow> error + 'l dispatcher" where
  "updateAllAugmentors s =
     (if \<exists>kv \<in> set (augmentors s). name (snd kv) = []
      then Inl (Exception ''assertion failure: !aug.name.empty()'')
      else Inr (s\<lparr>allAugmentors := sort (map (\<lambda>kv. name (snd kv)) (augmentors s)),
                  retired := allAugmentors s # retired s\<rparr>))"

subsection \<open>augment\<close>

definition collect_augmentors :: "PotentialBidder list list \<Rightarrow> string list" where
  "collect_augmentors groups =
     fold (\<lambda>group acc.
        fold (\<lambda>bidder acc. fold insort_insert (config_augmentations bidder) acc) group acc)
       groups []"

text \<open>
  The loop over \<open>it1\<close> and \<open>it2\<close>, with the \<open>outstanding\<close> set of the entry and
  the counters recorded so far.
\<close>

fun augment_merge ::
  "string list \<Rightarrow> string list \<Rightarrow> string list \<times> string list \<Rightarrow> error + string list \<times> string list"
  where
  "augment_merge (a # as) (b # bs) (out, hs) =
     (if a = b then
        augment_merge as bs
          (insort_insert a out, hs @ [''augmentation.request'', ''augmentor.'' @ b @ ''.request''])
      else if a < b then augment_merge as (b # bs) (out, hs)
      else if b < a then augment_merge (a # as) bs (out, hs)
      else Inl (Exception ''logic error traversing augmentors''))"
| "augment_merge [] bs acc = Inr acc"
| "augment_merge as [] acc = Inr acc"

definition augment_with ::
  "string list \<Rightarrow> 'l AugmentationInfo \<Rightarrow> int \<Rightarrow> nat \<Rightarrow> 'l dispatcher \<Rightarrow> error + 'l dispatcher"
  where
  "augment_with ai info' timeout' onFinished' s =
     (case augment_merge (collect_augmentors (potentialGroups info')) ai ([], []) of
        Inl e \<Rightarrow> Inl e
      | Inr (out, hs) \<Rightarrow>
          if out = []
          then Inr (s\<lparr>fired := fired s @ [(onFinished', info')], hits := hits s @ hs\<rparr>)
          else Inr (s\<lparr>inbox := inbox s @
                        [\<lparr>info = info', outstanding = out, onFinished = onFinished',
                          timeout = timeout'\<rparr>],
                      hits := hits s @ hs\<rparr>))"

definition augment ::
  "'l AugmentationInfo \<Rightarrow> int \<Rightarrow> nat \<Rightarrow> 'l dispatcher \<Rightarrow> error + 'l dispatcher" where
  "augment info' timeout' onFinished' s = augment_with (allAugmentors s) info' timeout' onFinished' s"

subsection \<open>doAugmentation\<close>

definition collect_agents :: "PotentialBidder list list \<Rightarrow> string list" where
  "collect_agents groups =
     fold (\<lambda>group acc. fold (\<lambda>bidder acc. insort_insert (agent bidder) acc) group acc) groups []"

fun dispatch :: "'l Entry \<Rightarrow> string list \<Rightarrow> 'l dispatcher \<Rightarrow> error + 'l dispatcher" where
  "dispatch entry [] s = Inr s"
| "dispatch entry (n # ns) s =
     (case map_of (augmentors s) n of
        None \<Rightarrow> Inl NullAugmentor
      | Some aug \<Rightarrow>
          (case fst (pickInstance aug) of
             None \<Rightarrow>
               dispatch entry ns
                 (s\<lparr>hits := hits s @ [''augmentor.'' @ n @ ''.noAvailableInstances'']\<rparr>)
           | Some i \<Rightarrow>
               dispatch entry ns
                 (s\<lparr>augmentors := map_modify n (\<lambda>aug. snd (pickInstance aug)) (augmentors s),
                    hits := hits s @
                      [''augmentor.'' @ n @ ''.instances.'' @ addr (instances aug ! i) @ ''.requests''],
                    sent := sent s @
                      [AUGMENT (addr (instances aug ! i)) n
                         (auction_id (auction (info entry)))
                         (requestStrFormat (auction (info entry)))
                         (requestStr (auction (info entry)))
                         (collect_agents (potentialGroups (info entry)))]\<rparr>)))"

definition doAugmentation :: "'l Entry \<Rightarrow> 'l dispatcher \<Rightarrow> error + 'l dispatcher" where
  "doAugmentation entry s =
     (if tm_count (auction_id (auction (info entry))) (augmenting s)
      then Inr (s\<lparr>hits := hits s @ [''duplicateAuction'']\<rparr>)
      else
        case tm_insert (auction_id (auction (info entry))) entry (timeout entry) (augmenting s) of
          Inl e \<Rightarrow> Inl e
        | Inr m \<Rightarrow>
            (case dispatch entry (outstanding entry) (s\<lparr>augmenting := m\<rparr>) of
               Inl e \<Rightarrow> Inl e
             | Inr s' \<Rightarrow> Inr (s'\<lparr>idle := False\<rparr>)))"

subsection \<open>doDisconnection\<close>

text \<open>
  The inner loop: erase the first instance whose address is \<open>addr\<close> and stop. The
  flag tells whether one was found.
\<close>

fun erase_instance :: "string \<Rightarrow> AugmentorInstanceInfo list \<Rightarrow> AugmentorInstanceInfo list \<times> bool"
  where
  "erase_instance a [] = ([], False)"
| "erase_instance a (it # rest) =
     (if addr it \<noteq> a then (it # fst (erase_instance a rest), snd (erase_instance a rest))
      else (rest, True))"

text \<open>
  The outer loop over the directory. The test that skips a record reads
  \<open>augmentor.name.empty()\<close>, as the source does. When the inner loop has erased an
  instance, the next statement names a counter after \<open>it->addr\<close>, which it reads
  through the iterator that \<open>augmentor.instances.erase(it)\<close> has just invalidated:
  undefined behaviour. So the loop has a result only when no record it considers has an
  instance at the address: the directory, with the instance vectors as the inner loop
  leaves them, and the vector \<open>toErase\<close>.
\<close>

fun disconnect_loop ::
  "string \<Rightarrow> string \<Rightarrow> (string \<times> AugmentorInfo) list
     \<Rightarrow> error + (string \<times> AugmentorInfo) list \<times> string list" where
  "disconnect_loop a aug [] = Inr ([], [])"
| "disconnect_loop a aug ((k, augmentor) # rest) =
     (if name augmentor \<noteq> [] \<and> name augmentor \<noteq> aug
      then (case disconnect_loop a aug rest of
              Inl e \<Rightarrow> Inl e
            | Inr (rest', toErase) \<Rightarrow> Inr ((k, augmentor) # rest', toErase))
      else if snd (erase_instance a (instances augmentor)) then Inl InvalidatedIterator
      else
        (case disconnect_loop a aug rest of
           Inl e \<Rightarrow> Inl e
         | Inr (rest', toErase) \<Rightarrow>
             Inr ((k, augmentor\<lparr>instances := fst (erase_instance a (instances augmentor))\<rparr>) # rest',
                  (if fst (erase_instance a (instances augmentor)) = []
                   then [name augmentor] else []) @ toErase)))"

definition doDisconnection :: "string \<Rightarrow> string \<Rightarrow> 'l dispatcher \<Rightarrow> error + 'l dispatcher" where
  "doDisconnection a aug s =
     (case disconnect_loop a aug (augmentors s) of
        Inl e \<Rightarrow> Inl e
      | Inr (dir, toErase) \<Rightarrow>
          if toErase \<noteq> []
          then updateAllAugmentors (s\<lparr>augmentors := fold map_erase toErase dir\<rparr>)
          else Inr (s\<lparr>augmentors := dir\<rparr>))"

text \<open>
  Modelled from the spec: the declaration of \<open>doDisconnection\<close>, which gives the
  default of its second parameter, is in the header, not among the sources. The spec
  writes the call as \<open>doDisconnection(addr [, name])\<close>; a call without a name passes
  the empty string.
\<close>

definition no_augmentor :: string where
  "no_augmentor = []"

subsection \<open>doConfig\<close>

definition isspace :: "char \<Rightarrow> bool" where
  "isspace c = (c \<in> set [CHR '' '', CHR 0x09, CHR 0x0A, CHR 0x0B, CHR 0x0C, CHR 0x0D])"

definition isdigit :: "char \<Rightarrow> bool" where
  "isdigit c = (CHR ''0'' \<le> c \<and> c \<le> CHR ''9'')"

definition digits_value :: "string \<Rightarrow> int" where
  "digits_value ds = foldl (\<lambda>v c. 10 * v + (of_char c - 48)) 0 ds"

text \<open>
  \<open>std::stoi\<close>: white space, an optional sign, then decimal digits; what follows
  the digits is ignored.
\<close>

definition stoi :: "string \<Rightarrow> error + cint" where
  "stoi str =
     (let s1 = dropWhile isspace str;
          neg = (s1 \<noteq> [] \<and> hd s1 = CHR ''-'');
          s2 = (if s1 \<noteq> [] \<and> (hd s1 = CHR ''-'' \<or> hd s1 = CHR ''+'') then tl s1 else s1);
          ds = takeWhile isdigit s2;
          v = (if neg then - digits_value ds else digits_value ds)
      in if ds = [] then Inl (Exception ''stoi: invalid_argument'')
         else if v < - 2147483648 \<or> 2147483647 < v then Inl (Exception ''stoi: out_of_range'')
         else Inr (word_of_int v))"

text \<open>\<open>if (maxInFlight < 0) maxInFlight = 3000;\<close>\<close>

definition default_maxInFlight :: "cint \<Rightarrow> cint" where
  "default_maxInFlight m = (if m <s 0 then 3000 else m)"

text \<open>
  \<open>augmentors[name]\<close> in \<open>doConfig\<close>: a name that has no record gets a new one,
  with the instance as its first; a name that has one gets the instance appended to it.
\<close>

definition doConfig :: "string list \<Rightarrow> 'l dispatcher \<Rightarrow> error + 'l dispatcher" where
  "doConfig message s =
     (if length message < 4 then Inl (Exception ''config message has wrong size'')
      else if 5 < length message then Inl (Exception ''config message has wrong size'')
      else
        case (if 5 \<le> length message
              then (case vec_index message 5 of Inl e \<Rightarrow> Inl e | Inr str \<Rightarrow> stoi str)
              else Inr (- 1)) of
          Inl e \<Rightarrow> Inl e
        | Inr parsed \<Rightarrow>
            if message ! 2 \<noteq> ''1.0'' then Inl (Exception ''unknown version for config message'')
            else if message ! 3 = [] then Inl (Exception ''no augmentor name specified'')
            else
              case doDisconnection (message ! 0) (message ! 3) s of
                Inl e \<Rightarrow> Inl e
              | Inr s1 \<Rightarrow>
                  (case updateAllAugmentors
                     (s1\<lparr>augmentors :=
                           (case map_of (augmentors s1) (message ! 3) of
                              None \<Rightarrow>
                                map_put (message ! 3)
                                  \<lparr>name = message ! 3,
                                   instances =
                                     [\<lparr>addr = message ! 0, numInFlight = 0,
                                       maxInFlight = default_maxInFlight parsed\<rparr>]\<rparr>
                                  (augmentors s1)
                            | Some i \<Rightarrow>
                                map_modify (message ! 3)
                                  (\<lambda>info. info\<lparr>instances := instances info @
                                     [\<lparr>addr = message ! 0, numInFlight = 0,
                                       maxInFlight = default_maxInFlight parsed\<rparr>]\<rparr>)
                                  (augmentors s1)),
                         hits := hits s1
                           @ (case map_of (augmentors s1) (message ! 3) of
                                None \<Rightarrow> [''augmentor.'' @ message ! 3 @ ''.configured'']
                              | Some i \<Rightarrow> [])
                           @ [''augmentor.'' @ message ! 3 @ ''.instances.'' @ message ! 0
                                @ ''.configured'']\<rparr>) of
                     Inl e \<Rightarrow> Inl e
                   | Inr s2 \<Rightarrow> Inr (s2\<lparr>sent := sent s2 @ [CONFIGOK (message ! 0)]\<rparr>)))"

subsection \<open>doResponse\<close>

text \<open>
  Modelled from the spec: \<open>AugmentorInfo::findInstance\<close> is in the header, not among
  the sources. The spec has the decrement on "the (augmentor, addr) instance if still
  present": the instance of that address, the first one in the sequence. The function
  below is the decrement through the pointer found; decrementing the least \<open>int\<close> is
  undefined.
\<close>

fun release_instance ::
  "string \<Rightarrow> AugmentorInstanceInfo list \<Rightarrow> error + AugmentorInstanceInfo list" where
  "release_instance a [] = Inr []"
| "release_instance a (it # rest) =
     (if addr it = a
      then (if numInFlight it = INT_MIN then Inl SignedOverflow
            else Inr (it\<lparr>numInFlight := numInFlight it - 1\<rparr> # rest))
      else (case release_instance a rest of Inl e \<Rightarrow> Inl e | Inr rest' \<Rightarrow> Inr (it # rest')))"

definition release :: 
  "string \<Rightarrow> string \<Rightarrow> (string \<times> AugmentorInfo) list \<Rightarrow> error + (string \<times> AugmentorInfo) list"
  where
  "release augmentor a dir =
     (case map_of dir augmentor of
        None \<Rightarrow> Inr dir
      | Some aug \<Rightarrow>
          (case release_instance a (instances aug) of
             Inl e \<Rightarrow> Inl e
           | Inr insts \<Rightarrow> Inr (map_modify augmentor (\<lambda>aug. aug\<lparr>instances := insts\<rparr>) dir)))"

definition decode_payload :: "'l externals \<Rightarrow> string \<Rightarrow> string \<Rightarrow> 'l \<times> string list" where
  "decode_payload ext augmentor augmentation =
     (if augmentation \<noteq> [] \<and> augmentation \<noteq> ''null''
      then (case parseAugmentationList ext augmentation of
              Some l \<Rightarrow> (l, [])
            | None \<Rightarrow> (emptyAugmentationList ext,
                       [''augmentor.'' @ augmentor @ ''.responseParsingExceptions'']))
      else (emptyAugmentationList ext, []))"

text \<open>
  \<open>augmentations[augmentor].mergeWith(augmentationList)\<close>: \<open>operator[]\<close> of the map
  creates the empty list for a name that has none.
\<close>

definition merge_augmentation ::
  "'l externals \<Rightarrow> string \<Rightarrow> 'l \<Rightarrow> 'l AugmentationInfo \<Rightarrow> 'l AugmentationInfo" where
  "merge_augmentation ext augmentor l i =
     i\<lparr>auction := (auction i)\<lparr>augmentations :=
         map_put augmentor
           (mergeWith ext
              (case map_of (augmentations (auction i)) augmentor of
                 None \<Rightarrow> emptyAugmentationList ext
               | Some l0 \<Rightarrow> l0) l)
           (augmentations (auction i))\<rparr>\<rparr>"

definition doResponse ::
  "'l externals \<Rightarrow> string list \<Rightarrow> 'l dispatcher \<Rightarrow> error + 'l dispatcher" where
  "doResponse ext message s =
     (if length message \<noteq> 7 then Inl (Exception ''response message has wrong size'')
      else if message ! 2 \<noteq> ''1.0'' then Inl (Exception ''unknown response version'')
      else if \<not> parseSecondsSinceEpoch ext (message ! 3)
      then Inl (Exception ''parseSecondsSinceEpoch'')
      else
        case release (message ! 5) (message ! 0) (augmentors s) of
          Inl e \<Rightarrow> Inl e
        | Inr dir \<Rightarrow>
            (case tm_find (message ! 4) (augmenting s) of
               None \<Rightarrow>
                 Inr (s\<lparr>augmentors := dir,
                        hits := hits s @ [''augmentation.response'']
                          @ snd (decode_payload ext (message ! 5) (message ! 6))
                          @ [''augmentor.'' @ message ! 5 @ ''.timeTakenMs'',
                             ''augmentor.'' @ message ! 5 @ ''.responseLengthBytes'',
                             ''augmentation.unknown'',
                             ''augmentor.'' @ message ! 5 @ ''.instances.'' @ message ! 0
                               @ ''.unknown'']\<rparr>)
             | Some (entry, deadline) \<Rightarrow>
                 (if removeAll (message ! 5) (outstanding entry) = []
                  then
                    Inr (s\<lparr>augmentors := dir,
                           augmenting := tm_erase (message ! 4) (augmenting s),
                           fired := fired s @
                             [(onFinished entry,
                               merge_augmentation ext (message ! 5)
                                 (fst (decode_payload ext (message ! 5) (message ! 6)))
                                 (info entry))],
                           hits := hits s @ [''augmentation.response'']
                             @ snd (decode_payload ext (message ! 5) (message ! 6))
                             @ [''augmentor.'' @ message ! 5 @ ''.timeTakenMs'',
                                ''augmentor.'' @ message ! 5 @ ''.responseLengthBytes'',
                                ''augmentor.'' @ message ! 5 @ ''.instances.'' @ message ! 0 @ ''.''
                                  @ (if message ! 6 = [] \<or> message ! 6 = ''null''
                                     then ''nullResponse'' else ''validResponse'')]\<rparr>)
                  else
                    Inr (s\<lparr>augmentors := dir,
                           augmenting :=
                             map_modify (message ! 4)
                               (\<lambda>node.
                                  ((fst node)\<lparr>info :=
                                      merge_augmentation ext (message ! 5)
                                        (fst (decode_payload ext (message ! 5) (message ! 6)))
                                        (info (fst node)),
                                    outstanding := removeAll (message ! 5) (outstanding (fst node))\<rparr>,
                                   snd node))
                               (augmenting s),
                           hits := hits s @ [''augmentation.response'']
                             @ snd (decode_payload ext (message ! 5) (message ! 6))
                             @ [''augmentor.'' @ message ! 5 @ ''.timeTakenMs'',
                                ''augmentor.'' @ message ! 5 @ ''.responseLengthBytes'',
                                ''augmentor.'' @ message ! 5 @ ''.instances.'' @ message ! 0 @ ''.''
                                  @ (if message ! 6 = [] \<or> message ! 6 = ''null''
                                     then ''nullResponse'' else ''validResponse'')]\<rparr>))))"

subsection \<open>handleAugmentorMessage\<close>

definition handleAugmentorMessage ::
  "'l externals \<Rightarrow> string list \<Rightarrow> 'l dispatcher \<Rightarrow> error + 'l dispatcher" where
  "handleAugmentorMessage ext message s =
     (case vec_at message 1 of
        Inl e \<Rightarrow> Inl e
      | Inr type \<Rightarrow>
          if type = ''CONFIG'' then doConfig message s
          else if type = ''RESPONSE'' then doResponse ext message s
          else Inl (Exception (''error handling unknown augmentor message of type '' @ type)))"

subsection \<open>checkExpiries\<close>

text \<open>
  The callback \<open>onExpired\<close> on one expired node: a counter for each outstanding name,
  then \<open>augmentationExpired\<close>, which calls \<open>onFinished\<close> with the info of the entry.
\<close>

definition onExpired :: "string \<times> 'l Entry \<times> int \<Rightarrow> 'l dispatcher \<Rightarrow> 'l dispatcher" where
  "onExpired node s =
     s\<lparr>hits := hits s @ map (\<lambda>n. ''augmentor.'' @ n @ ''.expiredTooLate'') (outstanding (fst (snd node))),
       fired := fired s @ [(onFinished (fst (snd node)), info (fst (snd node)))]\<rparr>"

definition checkExpiries :: "int \<Rightarrow> 'l dispatcher \<Rightarrow> 'l dispatcher" where
  "checkExpiries now s =
     (let s1 = (case tm_earliest (augmenting s) of
                  None \<Rightarrow> s
                | Some t \<Rightarrow>
                    if t \<le> now
                    then fold onExpired (tm_expired now (augmenting s))
                           (s\<lparr>augmenting := tm_remaining now (augmenting s)\<rparr>)
                    else s)
      in if augmenting s1 = [] \<and> \<not> idle s1 then s1\<lparr>idle := True\<rparr> else s1)"

section \<open>The message loop\<close>

text \<open>
  What the loop thread and the callers of \<open>augment\<close> do to the dispatcher, one event
  at a time: a call of \<open>augment\<close>; a call of \<open>augment\<close> that loaded the snapshot
  pointer before later snapshots were published and so works on the \<open>k\<close>-th retired
  one; the inbox handing its oldest entry to \<open>doAugmentation\<close>; a frame from an
  augmentor; a disconnection; the periodic \<open>checkExpiries\<close> at time \<open>now\<close>.
\<close>

datatype 'l event =
    Augment "'l AugmentationInfo" int nat
  | AugmentStale nat "'l AugmentationInfo" int nat
  | InboxEvent
  | AugmentorMessage "string list"
  | Disconnection string
  | CheckExpiries int

fun step :: "'l externals \<Rightarrow> 'l event \<Rightarrow> 'l dispatcher \<Rightarrow> error + 'l dispatcher" where
  "step ext (Augment i t cb) s = augment i t cb s"
| "step ext (AugmentStale k i t cb) s =
     (if k < length (retired s) then augment_with (retired s ! k) i t cb s else augment i t cb s)"
| "step ext InboxEvent s =
     (case inbox s of
        [] \<Rightarrow> Inr s
      | entry # rest \<Rightarrow> doAugmentation entry (s\<lparr>inbox := rest\<rparr>))"
| "step ext (AugmentorMessage message) s = handleAugmentorMessage ext message s"
| "step ext (Disconnection a) s = doDisconnection a no_augmentor s"
| "step ext (CheckExpiries now) s = Inr (checkExpiries now s)"

text \<open>A run of the loop stops at the first handler that does not return.\<close>

fun run :: "'l externals \<Rightarrow> 'l event list \<Rightarrow> 'l dispatcher \<Rightarrow> error + 'l dispatcher" where
  "run ext [] s = Inr s"
| "run ext (ev # evs) s = (case step ext ev s of Inl e \<Rightarrow> Inl e | Inr s' \<Rightarrow> run ext evs s')"

section \<open>Collaborators for the examples\<close>

text \<open>
  Every time stamp parses, a payload decodes when it
  starts with an opening brace, to the list that holds it, and merging appends.
\<close>

definition example_externals :: "string list externals" where
  "example_externals =
     \<lparr>parseSecondsSinceEpoch = (\<lambda>_. True),
      parseAugmentationList = (\<lambda>p. if take 1 p = ''{'' then Some [p] else None),
      emptyAugmentationList = [],
      mergeWith = (\<lambda>l l'. l @ l')\<rparr>"

section \<open>Specification vocabulary for augment\<close>

text \<open>
  The names that the bidders of an auction ask for, as a set, and the counters that
  \<open>augment\<close> records for a list of dispatched names.
\<close>

definition needed :: "'l AugmentationInfo \<Rightarrow> string set" where
  "needed i = (\<Union>group \<in> set (potentialGroups i). \<Union>bidder \<in> set group. set (config_augmentations bidder))"

definition request_events :: "string list \<Rightarrow> string list" where
  "request_events out = concat (map (\<lambda>n. [''augmentation.request'', ''augmentor.'' @ n @ ''.request'']) out)"


section \<open>Specification vocabulary for the worker directory\<close>

text \<open>
  A directory as \<open>doConfig\<close> builds it: one record for each key, filed under its own
  name, which is not empty.
\<close>

definition wf_directory :: "(string \<times> AugmentorInfo) list \<Rightarrow> bool" where
  "wf_directory dir =
     (distinct (map fst dir) \<and> (\<forall>kv \<in> set dir. fst kv = name (snd kv) \<and> name (snd kv) \<noteq> []))"

text \<open>
  The records that a call of \<open>doDisconnection\<close> with the name \<open>aug\<close> does not
  skip.
\<close>

definition considered :: "string \<Rightarrow> string \<times> AugmentorInfo \<Rightarrow> bool" where
  "considered aug kv = (name (snd kv) = [] \<or> name (snd kv) = aug)"

definition served_from :: "string \<Rightarrow> string \<times> AugmentorInfo \<Rightarrow> bool" where
  "served_from a kv = (a \<in> addr ` set (instances (snd kv)))"

section \<open>Invariants of the dispatcher\<close>

text \<open>
  An instance is bounded when it has no more requests in flight than it admits and does
  not admit a negative number. A record is good when its instances are bounded and
  have distinct addresses. The invariant of the dispatcher between two handlers: the
  directory is as \<open>doConfig\<close> builds it, its records are good, every snapshot, the
  published one and the retired ones, is sorted and names only augmentors of the
  directory, and so does every entry waiting in the inbox. \<open>inv_upto\<close> is the same
  with the names measured against a given set, for the state in the middle of
  \<open>doConfig\<close>.
\<close>


definition bounded_instance :: "AugmentorInstanceInfo \<Rightarrow> bool" where
  "bounded_instance it = (numInFlight it \<le>s maxInFlight it \<and> 0 \<le>s maxInFlight it)"

definition good_record :: "AugmentorInfo \<Rightarrow> bool" where
  "good_record r = ((\<forall>it \<in> set (instances r). bounded_instance it) \<and> distinct (map addr (instances r)))"

definition dispatcher_inv :: "'l dispatcher \<Rightarrow> bool" where
  "dispatcher_inv s =
     (wf_directory (augmentors s)
      \<and> (\<forall>kv \<in> set (augmentors s). good_record (snd kv))
      \<and> (\<forall>snap \<in> set (allAugmentors s # retired s).
            sorted snap \<and> set snap \<subseteq> set (map fst (augmentors s)))
      \<and> (\<forall>e \<in> set (inbox s). set (outstanding e) \<subseteq> set (map fst (augmentors s))))"

definition inv_upto :: "string set \<Rightarrow> 'l dispatcher \<Rightarrow> bool" where
  "inv_upto K s =
     (wf_directory (augmentors s)
      \<and> (\<forall>kv \<in> set (augmentors s). good_record (snd kv))
      \<and> (\<forall>snap \<in> set (allAugmentors s # retired s). sorted snap \<and> set snap \<subseteq> K)
      \<and> (\<forall>e \<in> set (inbox s). set (outstanding e) \<subseteq> K))"


section \<open>Accounting for callbacks\<close>

text \<open>
  For a callback handle: how often it has been called, how many entries of the inbox and
  of the deadline index carry it, and how many calls of \<open>augment\<close> in a list of
  events were given it.
\<close>


definition fired_count :: "nat \<Rightarrow> 'l dispatcher \<Rightarrow> nat" where
  "fired_count cb s = length (filter (\<lambda>f. fst f = cb) (fired s))"

definition queued_count :: "nat \<Rightarrow> 'l dispatcher \<Rightarrow> nat" where
  "queued_count cb s = length (filter (\<lambda>e. onFinished e = cb) (inbox s))"

definition pending_count :: "nat \<Rightarrow> 'l dispatcher \<Rightarrow> nat" where
  "pending_count cb s = length (filter (\<lambda>n. onFinished (fst (snd n)) = cb) (augmenting s))"

fun event_count :: "nat \<Rightarrow> 'l event \<Rightarrow> nat" where
  "event_count cb (Augment i t cb') = (if cb' = cb then 1 else 0)"
| "event_count cb (AugmentStale k i t cb') = (if cb' = cb then 1 else 0)"
| "event_count cb ev = 0"

definition augment_count :: "nat \<Rightarrow> 'l event list \<Rightarrow> nat" where
  "augment_count cb evs = sum_list (map (event_count cb) evs)"

definition total_count :: "nat \<Rightarrow> 'l dispatcher \<Rightarrow> nat" where
  "total_count cb s = fired_count cb s + queued_count cb s + pending_count cb s"


text \<open>
  The entries that \<open>doAugmentation\<close> drops because the auction id is in the index
  already: whether the handler of the event, run in the state \<open>s\<close>, drops an entry
  that carries the callback, and how many such entries a run of the loop drops.
\<close>

fun dropped_now :: "nat \<Rightarrow> 'l event \<Rightarrow> 'l dispatcher \<Rightarrow> nat" where
  "dropped_now cb InboxEvent s =
     (case inbox s of
        [] \<Rightarrow> 0
      | entry # rest \<Rightarrow>
          if onFinished entry = cb \<and> tm_count (auction_id (auction (info entry))) (augmenting s)
          then 1 else 0)"
| "dropped_now cb ev s = 0"

fun dropped_count :: "nat \<Rightarrow> 'l externals \<Rightarrow> 'l event list \<Rightarrow> 'l dispatcher \<Rightarrow> nat" where
  "dropped_count cb ext [] s = 0"
| "dropped_count cb ext (ev # evs) s =
     (case step ext ev s of
        Inl e \<Rightarrow> 0
      | Inr s' \<Rightarrow> dropped_now cb ev s + dropped_count cb ext evs s')"

section \<open>Specification vocabulary for doResponse\<close>

text \<open>The dispatcher without its record of counters.\<close>

definition forget_hits :: "'l dispatcher \<Rightarrow> 'l dispatcher" where
  "forget_hits s = s\<lparr>hits := []\<rparr>"


section \<open>The compact vector\<close>

text \<open>
  \<open>compact_vector<Data, Internal, Size, Safe>\<close> with \<open>Size = uint32_t\<close>, the
  default. The template arguments \<open>Internal\<close> and \<open>Safe\<close> are parameters. Of a
  vector the model keeps the bit field \<open>size_\<close>, which is 31 bits wide, the flag
  \<open>is_internal_\<close>, the field \<open>ext.capacity_\<close>, which means something only while the
  storage is external, and the objects alive in the buffer that \<open>data()\<close> points to
  (the members are written \<open>m_size\<close>, \<open>m_is_internal\<close>, \<open>m_capacity\<close> and
  \<open>m_data\<close>).
  Arithmetic that the source does in \<open>Size\<close> wraps at \<open>2 ^ 32\<close>, an increment of
  \<open>size_\<close> at \<open>2 ^ 31\<close>. An iterator is the position it points to, counted from
  \<open>begin()\<close>. Constructing an object outside the buffer is undefined behaviour.
\<close>

record params =
  Internal :: nat
  Safe :: bool

record 'a compact_vector =
  m_size :: nat
  m_is_internal :: bool
  m_capacity :: nat
  m_data :: "'a list"

definition max_size :: nat where
  "max_size = 2 ^ 32 - 1"

definition capacity :: "params \<Rightarrow> 'a compact_vector \<Rightarrow> nat" where
  "capacity p v = (if m_is_internal v then Internal p mod 2 ^ 32 else m_capacity v)"

text \<open>The number of objects the buffer of \<open>data()\<close> has room for.\<close>

definition room :: "params \<Rightarrow> 'a compact_vector \<Rightarrow> nat" where
  "room p v = (if m_is_internal v then Internal p else m_capacity v)"

definition empty_vector :: "'a compact_vector" where
  "empty_vector = \<lparr>m_size = 0, m_is_internal = True, m_capacity = 0, m_data = []\<rparr>"

definition clear :: "'a compact_vector \<Rightarrow> 'a compact_vector" where
  "clear v = v\<lparr>m_size := 0, m_is_internal := True, m_data := []\<rparr>"

text \<open>The copy loop of \<open>init\<close>, over the objects between \<open>first\<close> and \<open>last\<close>.\<close>

fun init_copy :: "params \<Rightarrow> 'a list \<Rightarrow> nat \<Rightarrow> 'a compact_vector \<Rightarrow> error + 'a compact_vector"
  where
  "init_copy p [] to_alloc v = Inr v"
| "init_copy p (x # xs) to_alloc v =
     (if Safe p \<and> to_alloc < m_size v
      then Inl (Exception ''compact_vector: internal logic error in init()'')
      else if room p v \<le> length (m_data v) then Inl OutOfBounds
      else init_copy p xs to_alloc
             (v\<lparr>m_data := m_data v @ [x], m_size := (m_size v + 1) mod 2 ^ 31\<rparr>))"

definition init_vector ::
  "params \<Rightarrow> 'a list \<Rightarrow> nat \<Rightarrow> 'a compact_vector \<Rightarrow> error + 'a compact_vector" where
  "init_vector p src to_alloc v =
     (if max_size < to_alloc then Inl (Exception ''compact_vector can't grow that big'')
      else if Internal p < to_alloc
      then init_copy p src to_alloc ((clear v)\<lparr>m_is_internal := False, m_capacity := to_alloc\<rparr>)
      else init_copy p src to_alloc ((clear v)\<lparr>m_is_internal := True\<rparr>))"

text \<open>The private constructor \<open>compact_vector(first, last, to_alloc)\<close>.\<close>

definition construct :: "params \<Rightarrow> 'a list \<Rightarrow> nat \<Rightarrow> error + 'a compact_vector" where
  "construct p src to_alloc = init_vector p src to_alloc empty_vector"

text \<open>
  \<open>swap\<close>, as the pair of \<open>*this\<close> and \<open>other\<close> afterwards. Its last branch,
  taken when \<open>*this\<close> is internal and \<open>other\<close> external, hands the buffer of
  \<open>other\<close> to \<open>*this\<close> and moves the objects of \<open>*this\<close> into the inline storage
  of \<open>other\<close>. Each loop of the branch for two internal vectors is one list
  expression: the exchange of the common positions, then the two copies of left-overs.
\<close>

definition swap_internal_external ::
  "'a compact_vector \<Rightarrow> 'a compact_vector \<Rightarrow> 'a compact_vector \<times> 'a compact_vector" where
  "swap_internal_external this other =
     (\<lparr>m_size = m_size other, m_is_internal = False, m_capacity = m_capacity other,
       m_data = m_data other\<rparr>,
      \<lparr>m_size = m_size this, m_is_internal = True, m_capacity = m_capacity other,
       m_data = take (m_size this) (m_data this)\<rparr>)"

definition swap_internal_internal ::
  "'a compact_vector \<Rightarrow> 'a compact_vector \<Rightarrow> 'a compact_vector \<times> 'a compact_vector" where
  "swap_internal_internal this other =
     (let m = min (m_size this) (m_size other);
          t1 = take m (m_data other) @ drop m (m_data this);
          o1 = take m (m_data this) @ drop m (m_data other);
          t2 = t1 @ drop (m_size this) (take (m_size other) o1);
          o2 = (if m_size this < m_size other then take (m_size this) o1 else o1);
          o3 = o2 @ drop (m_size other) (take (m_size this) t2);
          t3 = (if m_size other < m_size this then take (m_size other) t2 else t2)
      in (this\<lparr>m_size := m_size other, m_data := t3\<rparr>, other\<lparr>m_size := m_size this, m_data := o3\<rparr>))"

definition swap ::
  "'a compact_vector \<Rightarrow> 'a compact_vector \<Rightarrow> 'a compact_vector \<times> 'a compact_vector" where
  "swap this other =
     (if \<not> (m_is_internal this \<or> m_is_internal other)
      then (this\<lparr>m_size := m_size other, m_capacity := m_capacity other, m_data := m_data other\<rparr>,
            other\<lparr>m_size := m_size this, m_capacity := m_capacity this, m_data := m_data this\<rparr>)
      else if m_is_internal this \<and> m_is_internal other then swap_internal_internal this other
      else if \<not> m_is_internal this
      then (snd (swap_internal_external other this), fst (swap_internal_external other this))
      else swap_internal_external this other)"

definition reserve :: "params \<Rightarrow> nat \<Rightarrow> 'a compact_vector \<Rightarrow> error + 'a compact_vector" where
  "reserve p new_capacity v =
     (if new_capacity \<le> capacity p v then Inr v
      else
        case construct p (take (m_size v) (m_data v))
               (min (max ((capacity p v * 2) mod 2 ^ 32) new_capacity) max_size) of
          Inl e \<Rightarrow> Inl e
        | Inr new_me \<Rightarrow> Inr (fst (swap v new_me)))"

text \<open>
  The loop of \<open>start_insert\<close> that moves the elements to the end, for \<open>i\<close> from
  \<open>size_ - 1\<close> down to \<open>index + n\<close>: \<open>lo\<close> is \<open>index + n\<close>, and the third
  argument counts the positions still to be written, the highest first.
\<close>

primrec move_to_end :: "nat \<Rightarrow> nat \<Rightarrow> nat \<Rightarrow> 'a list \<Rightarrow> 'a list" where
  "move_to_end n lo 0 es = es"
| "move_to_end n lo (Suc k) es = move_to_end n lo k (es[lo + k := es ! (lo + k - n)])"

definition start_insert ::
  "params \<Rightarrow> 'a \<Rightarrow> 'a compact_vector \<Rightarrow> nat \<Rightarrow> nat \<Rightarrow> error + 'a compact_vector" where
  "start_insert p dflt v index n =
     (if n = 0 then Inr v
      else if Safe p \<and> m_size v < index
      then Inl (Exception ''compact_vector insert: invalid index'')
      else if m_size v < index then Inl OutOfBounds
      else
        case (if capacity p v < (m_size v + n) mod 2 ^ 32
              then reserve p ((m_size v + n) mod 2 ^ 32) v else Inr v) of
          Inl e \<Rightarrow> Inl e
        | Inr v1 \<Rightarrow>
            if room p v1 < length (m_data v1) + n then Inl OutOfBounds
            else
              Inr (v1\<lparr>m_size := (m_size v1 + n) mod 2 ^ 31,
                      m_data :=
                        move_to_end n (index + n) ((m_size v1 + n) mod 2 ^ 31 - (index + n))
                          (m_data v1 @ replicate n dflt)\<rparr>))"

text \<open>\<open>std::copy\<close> into the positions from \<open>index\<close> on.\<close>

definition overwrite :: "nat \<Rightarrow> 'a list \<Rightarrow> 'a list \<Rightarrow> 'a list" where
  "overwrite index src es = take index es @ src @ drop (index + length src) es"

text \<open>
  The range that \<open>insert(pos, first, last)\<close> copies from: objects outside the vector,
  given by their values, or elements of the vector itself, \<open>first\<close> being the
  iterator \<open>begin() + a\<close> and \<open>last\<close> the iterator \<open>first + cnt\<close>.
\<close>

datatype 'a source = Outside "'a list" | Within nat nat

text \<open>
  \<open>insert(pos, first, last)\<close>. The number of elements is counted into a
  \<open>size_type\<close>, \<open>start_insert\<close> makes room for that many, and \<open>std::copy\<close>
  assigns every element of the range to the positions from \<open>index\<close> on, which
  must hold objects. Iterators into the vector itself are read after
  \<open>start_insert\<close>: if that has called \<open>reserve\<close>, the buffer they point into has
  been given up; if not, they see the elements where the loop of \<open>start_insert\<close>
  has left them, and \<open>std::copy\<close> requires that the destination is not inside the
  range.

  This is the one overload of \<open>insert\<close> that can be instantiated:
  \<open>insert(pos, n, x)\<close> is declared \<open>void\<close> and returns a value, and
  \<open>insert(pos, x)\<close> returns the result of that call as an iterator. Neither is
  embedded.
\<close>

definition insert_range ::
  "params \<Rightarrow> 'a \<Rightarrow> 'a compact_vector \<Rightarrow> nat \<Rightarrow> 'a source \<Rightarrow> error + 'a compact_vector" where
  "insert_range p dflt v index src =
     (case src of
        Outside xs \<Rightarrow>
          (case start_insert p dflt v index (length xs mod 2 ^ 32) of
             Inl e \<Rightarrow> Inl e
           | Inr v1 \<Rightarrow>
               if xs \<noteq> [] \<and> length (m_data v1) < index + length xs then Inl OutOfBounds
               else Inr (v1\<lparr>m_data := overwrite index xs (m_data v1)\<rparr>))
      | Within a cnt \<Rightarrow>
          (case start_insert p dflt v index (cnt mod 2 ^ 32) of
             Inl e \<Rightarrow> Inl e
           | Inr v1 \<Rightarrow>
               if cnt = 0 then Inr v1
               else if cnt mod 2 ^ 32 \<noteq> 0 \<and> capacity p v < (m_size v + cnt mod 2 ^ 32) mod 2 ^ 32
               then Inl InvalidatedIterator
               else if a \<le> index \<and> index < a + cnt then Inl OverlappingCopy
               else if length (m_data v1) < a + cnt \<or> length (m_data v1) < index + cnt
               then Inl OutOfBounds
               else Inr (v1\<lparr>m_data := overwrite index (take cnt (drop a (m_data v1))) (m_data v1)\<rparr>)))"

definition erase_range ::
  "params \<Rightarrow> 'a \<Rightarrow> 'a compact_vector \<Rightarrow> nat \<Rightarrow> nat \<Rightarrow> error + 'a compact_vector" where
  "erase_range p dflt v first_pos last_pos =
     (if Safe p \<and> last_pos < first_pos
      then Inl (Exception ''compact_vector::erase(): last before first'')
      else if Safe p \<and> m_size v < last_pos
      then Inl (Exception ''compact_vector::erase(): iterators not ours'')
      else if last_pos < first_pos \<or> m_size v < last_pos then Inl OutOfBounds
      else if last_pos - first_pos = 0 then Inr v
      else if \<not> m_is_internal v \<and> m_size v - (last_pos - first_pos) \<le> Internal p
      then
        (case construct p (take first_pos (m_data v)) (m_size v - (last_pos - first_pos)) of
           Inl e \<Rightarrow> Inl e
         | Inr new_me \<Rightarrow>
             (case insert_range p dflt new_me (m_size new_me)
                     (Outside (drop last_pos (take (m_size v) (m_data v)))) of
                Inl e \<Rightarrow> Inl e
              | Inr new_me' \<Rightarrow> Inr (fst (swap v new_me'))))
      else
        Inr (v\<lparr>m_size := m_size v - (last_pos - first_pos),
               m_data := take (m_size v - (last_pos - first_pos))
                          (overwrite first_pos (drop last_pos (take (m_size v) (m_data v))) (m_data v))\<rparr>))"

text \<open>\<open>erase(pos)\<close> is \<open>erase(pos, pos + 1)\<close>.\<close>

definition erase_at ::
  "params \<Rightarrow> 'a \<Rightarrow> 'a compact_vector \<Rightarrow> nat \<Rightarrow> error + 'a compact_vector" where
  "erase_at p dflt v index = erase_range p dflt v index (index + 1)"

text \<open>\<open>operator ==\<close>: the sizes and then the elements.\<close>

definition equal_by_value :: "'a compact_vector \<Rightarrow> 'a compact_vector \<Rightarrow> bool" where
  "equal_by_value v w = (m_size v = m_size w \<and> take (m_size v) (m_data v) = take (m_size v) (m_data w))"

text \<open>
  A vector as its operations keep it: as many objects alive as \<open>m_size\<close> says, within
  the inline capacity while internal and within the allocated capacity otherwise, and an
  inline capacity that \<open>Size\<close> can hold.
\<close>

definition valid_vector :: "params \<Rightarrow> 'a compact_vector \<Rightarrow> bool" where
  "valid_vector p v =
     (length (m_data v) = m_size v \<and> m_size v < 2 ^ 31 \<and> Internal p \<le> max_size
      \<and> (if m_is_internal v then m_size v \<le> Internal p
          else m_size v \<le> m_capacity v \<and> m_capacity v \<le> max_size))"
section \<open>Properties of pickInstance\<close>

lemma avail_lt_max: "has_capacity it \<Longrightarrow> numInFlight it <s INT_MAX"
  unfolding has_capacity_def INT_MAX_def word_sle_eq word_sless_alt
  using sint_lt[of "maxInFlight it"] by simp

lemma loop_None:
  "pickInstance_loop rest i inst m = None \<longleftrightarrow>
     inst = None \<and> (\<forall>it \<in> set rest. \<not> (numInFlight it <s m \<and> has_capacity it))"
  by (induction rest arbitrary: i inst m)
     (auto simp: has_capacity_def word_sle_eq word_sless_alt)

lemma first_least_skip:
  assumes "first_least rest k" "numInFlight (rest ! k) <s m"
    and "m \<le>s numInFlight it \<or> \<not> has_capacity it"
  shows "first_least (it # rest) (Suc k)"
  using assms unfolding first_least_def
  by (auto simp: nth_Cons' word_sle_eq word_sless_alt less_Suc_eq_0_disj)

lemma first_least_here:
  assumes "has_capacity it"
    and "\<forall>x \<in> set rest. \<not> (numInFlight x <s numInFlight it \<and> has_capacity x)"
  shows "first_least (it # rest) 0"
proof -
  have "sint (numInFlight it) \<le> sint (numInFlight (rest ! j))"
    if "j < length rest" "has_capacity (rest ! j)" for j
    using assms(2) that nth_mem[OF that(1)] by (fastforce simp: word_sless_alt)
  then show ?thesis
    using assms(1) unfolding first_least_def
    by (auto simp: nth_Cons' word_sle_eq)
qed

lemma first_least_later:
  assumes "first_least rest k" "numInFlight (rest ! k) <s numInFlight it"
  shows "first_least (it # rest) (Suc k)"
  using assms unfolding first_least_def
  by (auto simp: nth_Cons' word_sle_eq word_sless_alt less_Suc_eq_0_disj)

lemma loop_Some:
  "pickInstance_loop rest i inst m = Some k \<Longrightarrow>
     (inst = Some k \<and> (\<forall>it \<in> set rest. \<not> (numInFlight it <s m \<and> has_capacity it)))
   \<or> (i \<le> k \<and> first_least rest (k - i) \<and> numInFlight (rest ! (k - i)) <s m)"
proof (induction rest arbitrary: i inst m)
  case Nil
  then show ?case by simp
next
  case (Cons it rest)
  show ?case
  proof (cases "m \<le>s numInFlight it \<or> maxInFlight it \<le>s numInFlight it")
    case True
    then have skip: "m \<le>s numInFlight it \<or> \<not> has_capacity it"
      by (auto simp: has_capacity_def word_sle_eq word_sless_alt)
    from True Cons.prems have "pickInstance_loop rest (Suc i) inst m = Some k"
      by (auto split: if_splits)
    from Cons.IH[OF this] show ?thesis
    proof
      assume "inst = Some k \<and> (\<forall>it\<in>set rest. \<not> (numInFlight it <s m \<and> has_capacity it))"
      with skip show ?thesis by (auto simp: word_sle_eq word_sless_alt)
    next
      assume a: "Suc i \<le> k \<and> first_least rest (k - Suc i) \<and> numInFlight (rest ! (k - Suc i)) <s m"
      then have "first_least (it # rest) (Suc (k - Suc i))"
        using first_least_skip skip by blast
      moreover from a have "Suc (k - Suc i) = k - i" by arith
      ultimately show ?thesis using a by (auto simp: nth_Cons')
    qed
  next
    case False
    then have cap: "has_capacity it" and lt: "numInFlight it <s m"
      by (auto simp: has_capacity_def word_sle_eq word_sless_alt)
    from False Cons.prems have "pickInstance_loop rest (Suc i) (Some i) (numInFlight it) = Some k"
      by auto
    from Cons.IH[OF this] show ?thesis
    proof
      assume "Some i = Some k \<and> (\<forall>x\<in>set rest. \<not> (numInFlight x <s numInFlight it \<and> has_capacity x))"
      then show ?thesis using first_least_here[OF cap] lt by auto
    next
      assume a: "Suc i \<le> k \<and> first_least rest (k - Suc i)
                 \<and> numInFlight (rest ! (k - Suc i)) <s numInFlight it"
      then have "first_least (it # rest) (Suc (k - Suc i))"
        using first_least_later by blast
      moreover from a have e: "Suc (k - Suc i) = k - i" by arith
      moreover from a lt have "numInFlight (rest ! (k - Suc i)) <s m"
        by (auto simp: word_sle_eq word_sless_alt)
      ultimately show ?thesis using a by (auto simp: nth_Cons')
    qed
  qed
qed

lemma bump_no_overflow:
  "has_capacity it \<Longrightarrow> sint (numInFlight it + 1) = sint (numInFlight it) + 1"
proof -
  assume "has_capacity it"
  then have "sint (numInFlight it) < sint (maxInFlight it)"
    by (simp add: has_capacity_def word_sless_alt)
  moreover have "sint (maxInFlight it) < 2 ^ 31" using sint_lt[of "maxInFlight it"] by simp
  moreover have "- (2 ^ 31) \<le> sint (numInFlight it)" using sint_ge[of "numInFlight it"] by simp
  ultimately show ?thesis
    by (simp add: sint_word_ariths signed_take_bit_int_eq_self)
qed


lemma first_least_unique: "first_least xs k \<Longrightarrow> first_least xs k' \<Longrightarrow> k = k'"
proof (rule ccontr)
  assume a: "first_least xs k" "first_least xs k'" and "k \<noteq> k'"
  then consider "k < k'" | "k' < k" by arith
  then show False
    using a unfolding first_least_def
    by cases (auto simp: word_sle_eq word_sless_alt, fastforce+)
qed

text \<open>
  Claim C4. \<open>pickInstance\<close> returns null exactly when no instance has
  \<open>numInFlight < maxInFlight\<close>, and then leaves the record as it is. Otherwise it
  returns the first instance, in the order of the instance sequence, among those of
  least \<open>numInFlight\<close> with \<open>numInFlight < maxInFlight\<close>, and increments the
  \<open>numInFlight\<close> of that instance and of no other; the increment does not overflow.
\<close>

theorem pickInstance_selects:
  "(fst (pickInstance aug) = None \<longleftrightarrow> (\<forall>it \<in> set (instances aug). \<not> has_capacity it))
   \<and> (fst (pickInstance aug) = None \<longrightarrow> snd (pickInstance aug) = aug)
   \<and> (\<forall>k. fst (pickInstance aug) = Some k \<longrightarrow>
          first_least (instances aug) k
          \<and> snd (pickInstance aug) = bump_instance aug k
          \<and> sint (numInFlight (instances (bump_instance aug k) ! k))
              = sint (numInFlight (instances aug ! k)) + 1)"
proof (intro conjI allI impI)
  have "pickInstance_loop (instances aug) 0 None INT_MAX = None
        \<longleftrightarrow> (\<forall>it \<in> set (instances aug). \<not> has_capacity it)"
    using avail_lt_max by (auto simp: loop_None)
  then show "fst (pickInstance aug) = None \<longleftrightarrow> (\<forall>it \<in> set (instances aug). \<not> has_capacity it)"
    by (cases "pickInstance_loop (instances aug) 0 None INT_MAX") (simp_all add: pickInstance_def)
next
  assume "fst (pickInstance aug) = None"
  then show "snd (pickInstance aug) = aug"
    by (simp add: pickInstance_def split: option.splits)
next
  fix k assume k: "fst (pickInstance aug) = Some k"
  then have l: "pickInstance_loop (instances aug) 0 None INT_MAX = Some k"
    by (simp add: pickInstance_def split: option.splits)
  from loop_Some[OF l] show fl: "first_least (instances aug) k" by simp
  from l show "snd (pickInstance aug) = bump_instance aug k"
    by (simp add: pickInstance_def)
  from fl have "k < length (instances aug)" "has_capacity (instances aug ! k)"
    by (simp_all add: first_least_def)
  then show "sint (numInFlight (instances (bump_instance aug k) ! k))
              = sint (numInFlight (instances aug ! k)) + 1"
    by (simp add: bump_instance_def bump_no_overflow)
qed

theorem pickInstance_selects_witness:
  "fst (pickInstance \<lparr>name = ''geo'', instances =
      [\<lparr>addr = ''A'', numInFlight = 2, maxInFlight = 5\<rparr>,
       \<lparr>addr = ''B'', numInFlight = 1, maxInFlight = 1\<rparr>,
       \<lparr>addr = ''C'', numInFlight = 2, maxInFlight = 3\<rparr>,
       \<lparr>addr = ''D'', numInFlight = 0, maxInFlight = 0\<rparr>]\<rparr>) = Some 0
   \<and> first_least
      [\<lparr>addr = ''A'', numInFlight = 2, maxInFlight = 5\<rparr>,
       \<lparr>addr = ''B'', numInFlight = 1, maxInFlight = 1\<rparr>,
       \<lparr>addr = ''C'', numInFlight = 2, maxInFlight = 3\<rparr>,
       \<lparr>addr = ''D'', numInFlight = 0, maxInFlight = 0\<rparr>] 0
   \<and> map numInFlight (instances (snd (pickInstance \<lparr>name = ''geo'', instances =
      [\<lparr>addr = ''A'', numInFlight = 2, maxInFlight = 5\<rparr>,
       \<lparr>addr = ''B'', numInFlight = 1, maxInFlight = 1\<rparr>,
       \<lparr>addr = ''C'', numInFlight = 2, maxInFlight = 3\<rparr>,
       \<lparr>addr = ''D'', numInFlight = 0, maxInFlight = 0\<rparr>]\<rparr>))) = [3, 1, 2, 0]"
  using pickInstance_selects [of "\<lparr>name = ''geo'', instances =
      [\<lparr>addr = ''A'', numInFlight = 2, maxInFlight = 5\<rparr>,
       \<lparr>addr = ''B'', numInFlight = 1, maxInFlight = 1\<rparr>,
       \<lparr>addr = ''C'', numInFlight = 2, maxInFlight = 3\<rparr>,
       \<lparr>addr = ''D'', numInFlight = 0, maxInFlight = 0\<rparr>]\<rparr>"]
  by (simp add: pickInstance_def INT_MAX_def bump_instance_def)


section \<open>Properties of doConfig\<close>

lemma map_of_map_put: "map_of (map_put k v m) k = Some v"
  by (induction m) auto

lemma map_of_map_modify:
  "map_of (map_modify k f m) k' = (if k' = k then map_option f (map_of m k) else map_of m k')"
  by (induction m) auto

lemma doConfig_four_elements_default:
  "doConfig [a, t, ''1.0'', n] s = Inr s' \<Longrightarrow>
     \<exists>r. map_of (augmentors s') n = Some r \<and> instances r \<noteq> []
         \<and> last (instances r) = \<lparr>addr = a, numInFlight = 0, maxInFlight = 3000\<rparr>"
  by (auto simp: doConfig_def updateAllAugmentors_def map_of_map_put map_of_map_modify
                 default_maxInFlight_def
           split: if_splits sum.splits option.splits)

text \<open>
  Claim C6. A CONFIG frame of five elements is accepted by the two size checks of
  \<open>doConfig\<close>, and its optional \<open>maxInFlight\<close> is then read from
  \<open>message[5]\<close>, one past the fifth element: whatever the frame holds, the handler
  reads outside the vector and the value of the fifth element, at index 4, is never
  looked at.
\<close>

theorem doConfig_five_elements_reads_past_end:
  "doConfig [a, ''CONFIG'', ''1.0'', n, m] s = Inl OutOfBounds
   \<and> handleAugmentorMessage ext [''A'', ''CONFIG'', ''1.0'', ''geo'', ''200''] s = Inl OutOfBounds"
  by (simp add: doConfig_def vec_index_def handleAugmentorMessage_def vec_at_def)

section \<open>Properties of augment\<close>

lemma fold_insort_insert:
  "set (fold insort_insert xs acc) = set xs \<union> set acc"
  "sorted acc \<Longrightarrow> sorted (fold insort_insert xs acc)"
  "distinct acc \<Longrightarrow> distinct (fold insort_insert xs acc)"
  by (induction xs arbitrary: acc) (auto simp: set_insort_insert sorted_insort_insert distinct_insort_insert)

lemma fold_bidders:
  "set (fold (\<lambda>bidder acc. fold insort_insert (config_augmentations bidder) acc) grp acc)
     = (\<Union>bidder \<in> set grp. set (config_augmentations bidder)) \<union> set acc"
  "sorted acc \<Longrightarrow> sorted (fold (\<lambda>bidder acc. fold insort_insert (config_augmentations bidder) acc) grp acc)"
  "distinct acc \<Longrightarrow> distinct (fold (\<lambda>bidder acc. fold insort_insert (config_augmentations bidder) acc) grp acc)"
  by (induction grp arbitrary: acc) (auto simp: fold_insort_insert)

lemma fold_groups:
  "set (fold (\<lambda>group acc. fold (\<lambda>bidder acc. fold insort_insert (config_augmentations bidder) acc) group acc) groups acc)
     = (\<Union>group \<in> set groups. \<Union>bidder \<in> set group. set (config_augmentations bidder)) \<union> set acc"
  "sorted acc \<Longrightarrow> sorted (fold (\<lambda>group acc. fold (\<lambda>bidder acc. fold insort_insert (config_augmentations bidder) acc) group acc) groups acc)"
  "distinct acc \<Longrightarrow> distinct (fold (\<lambda>group acc. fold (\<lambda>bidder acc. fold insort_insert (config_augmentations bidder) acc) group acc) groups acc)"
  by (induction groups arbitrary: acc) (auto simp: fold_bidders)

lemma collect_augmentors_set:
  "set (collect_augmentors (potentialGroups i)) = needed i"
  "sorted (collect_augmentors gs)" "distinct (collect_augmentors gs)"
  by (simp_all add: collect_augmentors_def needed_def fold_groups)

lemma augment_merge_filter:
  "sorted as \<Longrightarrow> distinct as \<Longrightarrow> sorted bs \<Longrightarrow>
   augment_merge as bs (out, hs) =
     Inr (fold insort_insert (filter (\<lambda>a. a \<in> set bs) as) out,
          hs @ request_events (filter (\<lambda>a. a \<in> set bs) as))"
proof (induction as bs "(out, hs)" arbitrary: out hs rule: augment_merge.induct)
  case (1 a as b bs out hs)
  show ?case
  proof (cases "a = b")
    case True
    with 1 have "a \<notin> set as" by simp
    moreover from 1 True have "\<forall>x \<in> set as. a < x" by (auto simp: less_le)
    ultimately have "filter (\<lambda>x. x \<in> set (b # bs)) as = filter (\<lambda>x. x \<in> set bs) as"
      using True by (auto intro!: filter_cong)
    with 1 True show ?thesis by (simp add: request_events_def)
  next
    case False
    note ne = False
    show ?thesis
    proof (cases "a < b")
      case True
      with 1 have "a \<notin> set bs" by auto
      with 1 True ne show ?thesis by simp
    next
      case False
      with ne have ba: "b < a" by simp
      with 1 have "\<forall>x \<in> set as. b < x" by auto
      with ba have "filter (\<lambda>x. x \<in> set (b # bs)) (a # as) = filter (\<lambda>x. x \<in> set bs) (a # as)"
        by (auto intro!: filter_cong)
      with 1 ne False ba show ?thesis by simp
    qed
  qed
next
  case (2 bs)
  show ?case by (simp add: request_events_def)
next
  case (3 v va)
  show ?case by (simp add: request_events_def)
qed

lemma fold_insort_insert_sorted_distinct:
  "sorted xs \<Longrightarrow> distinct xs \<Longrightarrow> fold insort_insert xs [] = xs"
  by (rule sorted_distinct_set_unique) (simp_all add: fold_insort_insert)

lemma augment_merge_outstanding:
  assumes "sorted bs"
  shows "augment_merge (collect_augmentors (potentialGroups i)) bs ([], []) =
     Inr (sorted_list_of_set (needed i \<inter> set bs),
          request_events (sorted_list_of_set (needed i \<inter> set bs)))"
proof -
  let ?as = "collect_augmentors (potentialGroups i)"
  let ?f = "filter (\<lambda>a. a \<in> set bs) ?as"
  have sd: "sorted ?f" "distinct ?f" by (simp_all add: collect_augmentors_set sorted_wrt_filter)
  have "set ?f = needed i \<inter> set bs" by (auto simp: collect_augmentors_set)
  then have "?f = sorted_list_of_set (needed i \<inter> set bs)"
    using sd by (metis sorted_list_of_set.idem_if_sorted_distinct)
  moreover have "augment_merge ?as bs ([], []) = Inr (?f, request_events ?f)"
    using augment_merge_filter[OF collect_augmentors_set(2,3) assms, of "potentialGroups i" "[]" "[]"]
    by (simp add: fold_insort_insert_sorted_distinct sd)
  ultimately show ?thesis by simp
qed


lemma augment_with_result:
  assumes "sorted ai"
  shows "augment_with ai i t cb s =
           Inr (if needed i \<inter> set ai = {}
                then s\<lparr>fired := fired s @ [(cb, i)]\<rparr>
                else s\<lparr>inbox := inbox s @
                         [\<lparr>info = i, outstanding = sorted_list_of_set (needed i \<inter> set ai),
                           onFinished = cb, timeout = t\<rparr>],
                       hits := hits s @ request_events (sorted_list_of_set (needed i \<inter> set ai))\<rparr>)"
proof -
  let ?d = "needed i \<inter> set ai"
  have fin: "finite ?d" by simp
  have e: "sorted_list_of_set ?d = [] \<longleftrightarrow> ?d = {}"
    using fin by (simp add: sorted_list_of_set_eq_Nil_iff)
  show ?thesis
    unfolding augment_with_def augment_merge_outstanding[OF assms]
    using e by (simp add: request_events_def)
qed

text \<open>
  Claim C3. With the published snapshot sorted by name, \<open>augment\<close> builds an entry
  whose \<open>outstanding\<close> set is the intersection of the names asked for by the bidders
  of all groups with the names of the snapshot; the merge loop \<open>augment_merge\<close>
  advances through both sorted sequences once. When the intersection is empty the
  callback is called at once with \<open>info\<close> and the inbox is left alone; otherwise the
  entry is pushed onto the inbox and the callback is not called. Without groups the
  intersection is empty.
\<close>

theorem augment_outstanding_intersection:
  assumes "sorted (allAugmentors s)"
  shows "augment i t cb s =
           Inr (if needed i \<inter> set (allAugmentors s) = {}
                then s\<lparr>fired := fired s @ [(cb, i)]\<rparr>
                else s\<lparr>inbox := inbox s @
                         [\<lparr>info = i,
                           outstanding = sorted_list_of_set (needed i \<inter> set (allAugmentors s)),
                           onFinished = cb, timeout = t\<rparr>],
                       hits := hits s @
                         request_events (sorted_list_of_set (needed i \<inter> set (allAugmentors s)))\<rparr>)
         \<and> (potentialGroups i = [] \<longrightarrow> augment i t cb s = Inr (s\<lparr>fired := fired s @ [(cb, i)]\<rparr>))"
proof -
  have "potentialGroups i = [] \<Longrightarrow> needed i \<inter> set (allAugmentors s) = {}"
    by (simp add: needed_def)
  then show ?thesis
    using augment_with_result[OF assms, of i t cb s] by (simp add: augment_def)
qed

theorem augment_outstanding_intersection_witness:
  "sorted [''geo'', ''zip'']
   \<and> augment
        \<lparr>auction = \<lparr>auction_id = ''1'', requestStrFormat = ''f'', requestStr = ''r'',
                    augmentations = []\<rparr>,
         potentialGroups = [[\<lparr>agent = ''x'', config_augmentations = [''geo'', ''abc'']\<rparr>]]\<rparr>
        50 7 ((init :: unit dispatcher)\<lparr>allAugmentors := [''geo'', ''zip'']\<rparr>)
     = Inr ((init :: unit dispatcher)
         \<lparr>allAugmentors := [''geo'', ''zip''],
          inbox :=
            [\<lparr>info = \<lparr>auction = \<lparr>auction_id = ''1'', requestStrFormat = ''f'',
                    requestStr = ''r'', augmentations = []\<rparr>,
                 potentialGroups = [[\<lparr>agent = ''x'', config_augmentations = [''geo'', ''abc'']\<rparr>]]\<rparr>,
              outstanding = [''geo''], onFinished = 7, timeout = 50\<rparr>],
          hits := [''augmentation.request'', ''augmentor.geo.request'']\<rparr>)"
proof -
  have s: "sorted (allAugmentors ((init :: unit dispatcher)\<lparr>allAugmentors := [''geo'', ''zip'']\<rparr>))"
    by simp
  show ?thesis
    using augment_outstanding_intersection [OF s, 
      of "\<lparr>auction = \<lparr>auction_id = ''1'', requestStrFormat = ''f'', requestStr = ''r'',
                    augmentations = []\<rparr>,
         potentialGroups = [[\<lparr>agent = ''x'', config_augmentations = [''geo'', ''abc'']\<rparr>]]\<rparr>" 50 7]
    by (simp add: needed_def request_events_def init_def)
qed

section \<open>Properties of doDisconnection\<close>

lemma erase_instance_first:
  "fst (erase_instance a xs) = takeWhile (\<lambda>i. addr i \<noteq> a) xs @ drop 1 (dropWhile (\<lambda>i. addr i \<noteq> a) xs)"
  "snd (erase_instance a xs) \<longleftrightarrow> a \<in> addr ` set xs"
  by (induction xs) auto

lemma erase_instance_absent: "\<not> snd (erase_instance a xs) \<Longrightarrow> fst (erase_instance a xs) = xs"
  by (induction xs) (simp_all split: if_splits)

lemma disconnect_loop_eq:
  "disconnect_loop a aug dir =
     (if \<exists>kv \<in> set dir. considered aug kv \<and> served_from a kv then Inl InvalidatedIterator
      else Inr (dir, map (\<lambda>kv. name (snd kv))
                       (filter (\<lambda>kv. considered aug kv \<and> instances (snd kv) = []) dir)))"
proof (induction dir)
  case Nil
  then show ?case by simp
next
  case (Cons kv dir)
  obtain k r where kv: "kv = (k, r)" by (cases kv)
  show ?case
  proof (cases "name r \<noteq> [] \<and> name r \<noteq> aug")
    case True
    with Cons kv show ?thesis by (simp add: considered_def)
  next
    case False
    show ?thesis
    proof (cases "snd (erase_instance a (instances r))")
      case True
      with False kv show ?thesis
        by (auto simp: considered_def served_from_def erase_instance_first(2))
    next
      case nf: False
      from nf have "fst (erase_instance a (instances r)) = instances r"
        by (rule erase_instance_absent)
      moreover from nf have "a \<notin> addr ` set (instances r)" by (simp add: erase_instance_first(2))
      ultimately show ?thesis using False nf Cons kv
        by (simp add: considered_def served_from_def)
    qed
  qed
qed

lemma filter_key_distinct:
  "distinct (map fst dir) \<Longrightarrow>
   map fst (filter (\<lambda>kv. fst kv = k \<and> P (snd kv)) dir) =
     (case map_of dir k of None \<Rightarrow> [] | Some r \<Rightarrow> if P r then [k] else [])"
proof (induction dir)
  case Nil
  then show ?case by simp
next
  case (Cons kv dir)
  have "filter (\<lambda>kv. fst kv = k \<and> P (snd kv)) dir = []" if "k \<notin> fst ` set dir"
    using that by (auto simp: filter_empty_conv)
  moreover have "map_of dir k = None" if "k \<notin> fst ` set dir"
    using that by (simp add: map_of_eq_None_iff)
  ultimately show ?case using Cons by (cases kv) (auto split: option.splits)
qed

lemma map_of_map_erase: "map_of (map_erase k m) k' = (if k' = k then None else map_of m k')"
  by (induction m) (auto simp: map_erase_def)

lemma wf_directory_map_erase: "wf_directory m \<Longrightarrow> wf_directory (map_erase k m)"
  by (auto simp: wf_directory_def map_erase_def distinct_map_filter)

text \<open>
  On a directory as \<open>doConfig\<close> builds it, a call with a name considers the record
  filed under that name and no other, and a call with the empty name considers none.
\<close>

lemma wf_considered:
  assumes "wf_directory dir" "kv \<in> set dir"
  shows "considered aug kv \<longleftrightarrow> fst kv = aug"
  using assms by (auto simp: wf_directory_def considered_def)

lemma wf_loop_served:
  assumes wf: "wf_directory dir"
  shows "(\<exists>kv \<in> set dir. considered aug kv \<and> served_from a kv)
           \<longleftrightarrow> (\<exists>r. map_of dir aug = Some r \<and> a \<in> addr ` set (instances r))"
proof
  from wf have dist: "distinct (map fst dir)" by (simp add: wf_directory_def)
  assume "\<exists>kv \<in> set dir. considered aug kv \<and> served_from a kv"
  then obtain kv where kv: "kv \<in> set dir" "considered aug kv" "served_from a kv" by blast
  from wf_considered[OF wf kv(1)] kv(2) have "fst kv = aug" by simp
  then have "kv = (aug, snd kv)" by (cases kv) simp
  with kv(1) have "(aug, snd kv) \<in> set dir" by simp
  with dist have "map_of dir aug = Some (snd kv)" by (rule map_of_is_SomeI)
  moreover from kv(3) have "a \<in> addr ` set (instances (snd kv))" by (simp only: served_from_def)
  ultimately show "\<exists>r. map_of dir aug = Some r \<and> a \<in> addr ` set (instances r)" by blast
next
  assume "\<exists>r. map_of dir aug = Some r \<and> a \<in> addr ` set (instances r)"
  then obtain r where r: "map_of dir aug = Some r" "a \<in> addr ` set (instances r)" by blast
  from r(1) have m: "(aug, r) \<in> set dir" by (rule map_of_SomeD)
  from wf_considered[OF wf m] have c: "considered aug (aug, r)" by simp
  from r(2) have s: "served_from a (aug, r)" by (simp add: served_from_def)
  from m c s show "\<exists>kv \<in> set dir. considered aug kv \<and> served_from a kv" by blast
qed

lemma wf_loop_toErase:
  assumes wf: "wf_directory dir"
  shows "map (\<lambda>kv. name (snd kv)) (filter (\<lambda>kv. considered aug kv \<and> instances (snd kv) = []) dir)
       = (case map_of dir aug of None \<Rightarrow> [] | Some r \<Rightarrow> if instances r = [] then [aug] else [])"
proof -
  let ?P = "\<lambda>kv. fst kv = aug \<and> instances (snd kv) = []"
  have 1: "filter (\<lambda>kv. considered aug kv \<and> instances (snd kv) = []) dir = filter ?P dir"
    using wf_considered[OF wf] by (intro filter_cong) auto
  have 2: "map (\<lambda>kv. name (snd kv)) (filter ?P dir) = map fst (filter ?P dir)"
    using wf by (auto simp: wf_directory_def)
  from wf have "distinct (map fst dir)" by (simp add: wf_directory_def)
  from filter_key_distinct[OF this, of aug "\<lambda>r. instances r = []"]
  have 3: "map fst (filter ?P dir)
         = (case map_of dir aug of None \<Rightarrow> [] | Some r \<Rightarrow> if instances r = [] then [aug] else [])" .
  show ?thesis unfolding 1 2 3 ..
qed

lemma updateAllAugmentors_wf:
  "wf_directory (augmentors s) \<Longrightarrow>
   updateAllAugmentors s =
     Inr (s\<lparr>allAugmentors := sort (map fst (augmentors s)), retired := allAugmentors s # retired s\<rparr>)"
proof -
  assume wf: "wf_directory (augmentors s)"
  then have "map (\<lambda>kv. name (snd kv)) (augmentors s) = map fst (augmentors s)"
    by (auto simp: wf_directory_def)
  moreover from wf have "\<not> (\<exists>kv \<in> set (augmentors s). name (snd kv) = [])"
    by (auto simp: wf_directory_def)
  ultimately show ?thesis unfolding updateAllAugmentors_def by (simp only: if_False)
qed

text \<open>
  What a call does on a directory as \<open>doConfig\<close> builds it. It has a result when the
  record of the name has no instance at the address, and then it removes nothing from an
  instance vector; it erases the record if that has no instances, and publishes a
  snapshot exactly then.
\<close>

lemma doDisconnection_result:
  assumes wf: "wf_directory (augmentors s)"
  shows "doDisconnection a aug s =
     (case map_of (augmentors s) aug of
        None \<Rightarrow> Inr s
      | Some r \<Rightarrow>
          if a \<in> addr ` set (instances r) then Inl InvalidatedIterator
          else if instances r = []
          then Inr (s\<lparr>augmentors := map_erase aug (augmentors s),
                      allAugmentors := sort (map fst (map_erase aug (augmentors s))),
                      retired := allAugmentors s # retired s\<rparr>)
          else Inr s)"
proof (cases "map_of (augmentors s) aug")
  case None
  with wf_loop_served[OF wf, of aug a] wf_loop_toErase[OF wf, of aug] show ?thesis
    by (simp add: doDisconnection_def disconnect_loop_eq)
next
  case (Some r)
  show ?thesis
  proof (cases "a \<in> addr ` set (instances r)")
    case True
    with Some wf_loop_served[OF wf, of aug a] show ?thesis
      by (simp add: doDisconnection_def disconnect_loop_eq)
  next
    case False
    with Some wf_loop_served[OF wf, of aug a]
    have ns: "\<not> (\<exists>kv \<in> set (augmentors s). considered aug kv \<and> served_from a kv)" by simp
    show ?thesis
    proof (cases "instances r = []")
      case True
      have "wf_directory (augmentors (s\<lparr>augmentors := map_erase aug (augmentors s)\<rparr>))"
        using wf by (simp add: wf_directory_map_erase)
      from updateAllAugmentors_wf[OF this] Some False True ns wf_loop_toErase[OF wf, of aug]
      show ?thesis by (simp add: doDisconnection_def disconnect_loop_eq)
    next
      case ne: False
      with Some False ns wf_loop_toErase[OF wf, of aug] show ?thesis
        by (simp add: doDisconnection_def disconnect_loop_eq)
    qed
  qed
qed

lemma doDisconnection_unnamed:
  assumes "wf_directory (augmentors s)"
  shows "doDisconnection a no_augmentor s = Inr s"
proof -
  from assms have "[] \<notin> fst ` set (augmentors s)" by (force simp: wf_directory_def)
  then have none: "map_of (augmentors s) [] = None" by (simp add: map_of_eq_None_iff)
  with doDisconnection_result[OF assms, of a "[]"] show ?thesis
    by (simp add: no_augmentor_def)
qed

text \<open>
  Wherever a call has a result, on any directory, it has not touched an instance vector,
  and it has changed the directory only by erasing records, with a snapshot published
  then.
\<close>

lemma set_fold_map_erase: "set (fold map_erase ks m) \<subseteq> set m"
  by (induction ks arbitrary: m) (force simp: map_erase_def)+

lemma doDisconnection_returns:
  assumes "doDisconnection a aug s = Inr s'"
  shows "(\<forall>kv \<in> set (augmentors s). considered aug kv \<longrightarrow> \<not> served_from a kv)
       \<and> set (augmentors s') \<subseteq> set (augmentors s)
       \<and> (augmentors s' \<noteq> augmentors s \<longrightarrow> retired s' = allAugmentors s # retired s)"
proof -
  from assms have ns: "\<not> (\<exists>kv \<in> set (augmentors s). considered aug kv \<and> served_from a kv)"
    by (auto simp: doDisconnection_def disconnect_loop_eq split: if_splits)
  from assms ns have "augmentors s' = augmentors s
      \<or> (\<exists>ks. augmentors s' = fold map_erase ks (augmentors s)
                \<and> retired s' = allAugmentors s # retired s)"
    by (auto simp: doDisconnection_def disconnect_loop_eq updateAllAugmentors_def
             split: if_splits)
  then show ?thesis
  proof
    assume "augmentors s' = augmentors s"
    with ns show ?thesis by simp
  next
    assume "\<exists>ks. augmentors s' = fold map_erase ks (augmentors s)
                \<and> retired s' = allAugmentors s # retired s"
    then obtain ks where k: "augmentors s' = fold map_erase ks (augmentors s)"
      and r: "retired s' = allAugmentors s # retired s" by blast
    from k have "set (augmentors s') \<subseteq> set (augmentors s)"
      by (simp add: set_fold_map_erase)
    with ns r show ?thesis by simp
  qed
qed

text \<open>
  Claim C7. A call of \<open>doDisconnection\<close> that finds, in a record it considers, an
  instance at the address erases that instance and then reads \<open>it->addr\<close> through the
  erased iterator, for the name of the counter: the call has undefined behaviour where
  the claim has it remove the instance and go on.
\<close>

theorem doDisconnection_reads_erased_iterator:
  assumes "kv \<in> set (augmentors s)" and "name (snd kv) = [] \<or> name (snd kv) = aug"
    and "a \<in> addr ` set (instances (snd kv))"
  shows "doDisconnection a aug s = Inl InvalidatedIterator"
proof -
  from assms have "\<exists>kv \<in> set (augmentors s). considered aug kv \<and> served_from a kv"
    by (auto simp: considered_def served_from_def)
  then show ?thesis by (simp add: doDisconnection_def disconnect_loop_eq)
qed

theorem doDisconnection_reads_erased_iterator_witness:
  "doDisconnection ''A'' ''geo'' ((init :: unit dispatcher)
        \<lparr>augmentors := [(''geo'', \<lparr>name = ''geo'', instances =
            [\<lparr>addr = ''A'', numInFlight = 0, maxInFlight = 3000\<rparr>,
             \<lparr>addr = ''B'', numInFlight = 0, maxInFlight = 3000\<rparr>]\<rparr>)],
         allAugmentors := [''geo'']\<rparr>) = Inl InvalidatedIterator"
  using doDisconnection_reads_erased_iterator
    [of "(''geo'', \<lparr>name = ''geo'', instances =
            [\<lparr>addr = ''A'', numInFlight = 0, maxInFlight = 3000\<rparr>,
             \<lparr>addr = ''B'', numInFlight = 0, maxInFlight = 3000\<rparr>]\<rparr>)"
        "(init :: unit dispatcher)
        \<lparr>augmentors := [(''geo'', \<lparr>name = ''geo'', instances =
            [\<lparr>addr = ''A'', numInFlight = 0, maxInFlight = 3000\<rparr>,
             \<lparr>addr = ''B'', numInFlight = 0, maxInFlight = 3000\<rparr>]\<rparr>)],
         allAugmentors := [''geo'']\<rparr>" "''geo''" "''A''"]
  by simp

text \<open>
  The loop reaches that call by itself: \<open>doConfig\<close> disconnects the address it is
  about to register, so a second CONFIG frame from the address \<open>A\<close> for the augmentor
  \<open>geo\<close> ends there.
\<close>

lemma second_config_reads_erased_iterator:
  "run example_externals
     [AugmentorMessage [''A'', ''CONFIG'', ''1.0'', ''geo''],
      AugmentorMessage [''B'', ''CONFIG'', ''1.0'', ''geo''],
      AugmentorMessage [''A'', ''CONFIG'', ''1.0'', ''geo'']] init = Inl InvalidatedIterator"
  by (simp add: init_def handleAugmentorMessage_def vec_at_def doConfig_def doDisconnection_def
        updateAllAugmentors_def default_maxInFlight_def word_sless_alt)

text \<open>
  A call without a name considers no record at all, since the test that skips a record
  looks at the name of the record, which is never empty, instead of the name passed in:
  the instance at \<open>A\<close> stays.
\<close>

lemma doDisconnection_unnamed_keeps_instance:
  "doDisconnection ''A'' no_augmentor ((init :: unit dispatcher)
        \<lparr>augmentors := [(''geo'', \<lparr>name = ''geo'', instances =
            [\<lparr>addr = ''A'', numInFlight = 0, maxInFlight = 3000\<rparr>,
             \<lparr>addr = ''B'', numInFlight = 0, maxInFlight = 3000\<rparr>]\<rparr>)],
         allAugmentors := [''geo'']\<rparr>) =
     Inr ((init :: unit dispatcher)
        \<lparr>augmentors := [(''geo'', \<lparr>name = ''geo'', instances =
            [\<lparr>addr = ''A'', numInFlight = 0, maxInFlight = 3000\<rparr>,
             \<lparr>addr = ''B'', numInFlight = 0, maxInFlight = 3000\<rparr>]\<rparr>)],
         allAugmentors := [''geo'']\<rparr>)"
  by (simp add: doDisconnection_def no_augmentor_def init_def)

section \<open>The invariant holds along every run\<close>

lemma dispatcher_inv_upto: "dispatcher_inv s = inv_upto (set (map fst (augmentors s))) s"
  by (simp add: dispatcher_inv_def inv_upto_def)

lemma dispatcher_inv_init: "dispatcher_inv init"
  by (simp add: dispatcher_inv_def init_def wf_directory_def)

subsection \<open>pickInstance keeps a record good\<close>

lemma pickInstance_loop_bound:
  "pickInstance_loop rest i inst m = Some k \<Longrightarrow> inst = Some k \<or> (i \<le> k \<and> k < i + length rest \<and> has_capacity (rest ! (k - i)))"
  using loop_Some[of rest i inst m k] by (auto simp: first_least_def)

lemma pickInstance_name [simp]: "name (snd (pickInstance r)) = name r"
  by (simp add: pickInstance_def bump_instance_def split: option.splits)

lemma map_addr_update:
  "map addr (xs[k := (xs ! k)\<lparr>numInFlight := v\<rparr>]) = map addr xs"
proof (cases "k < length xs")
  case True
  then show ?thesis by (auto intro!: nth_equalityI simp: nth_list_update)
next
  case False
  then have "xs[k := (xs ! k)\<lparr>numInFlight := v\<rparr>] = xs" by (intro list_update_beyond) simp
  then show ?thesis by (rule arg_cong)
qed

lemma pickInstance_addrs [simp]: "map addr (instances (snd (pickInstance r))) = map addr (instances r)"
  by (simp add: pickInstance_def bump_instance_def map_addr_update split: option.splits)

lemma bump_bounded:
  assumes "has_capacity it" "bounded_instance it"
  shows "bounded_instance (it\<lparr>numInFlight := numInFlight it + 1\<rparr>)"
  using assms bump_no_overflow[OF assms(1)]
  by (simp add: bounded_instance_def has_capacity_def word_sle_eq word_sless_alt)

lemma pickInstance_bounded:
  assumes "\<forall>it \<in> set (instances r). bounded_instance it"
  shows "\<forall>it \<in> set (instances (snd (pickInstance r))). bounded_instance it"
proof (cases "pickInstance_loop (instances r) 0 None INT_MAX")
  case None
  with assms show ?thesis by (simp add: pickInstance_def)
next
  case (Some k)
  from pickInstance_loop_bound[OF Some] have k: "k < length (instances r)" "has_capacity (instances r ! k)"
    by auto
  with assms have "bounded_instance ((instances r ! k)\<lparr>numInFlight := numInFlight (instances r ! k) + 1\<rparr>)"
    by (simp add: bump_bounded)
  with assms Some show ?thesis
    by (auto simp: pickInstance_def bump_instance_def dest!: set_update_subset_insert[THEN subsetD])
qed

lemma pickInstance_good: "good_record r \<Longrightarrow> good_record (snd (pickInstance r))"
  using pickInstance_bounded[of r] by (simp add: good_record_def)

subsection \<open>map_modify\<close>

lemma map_fst_map_modify [simp]: "map fst (map_modify k f m) = map fst m"
  by (induction m) auto

lemma set_map_modify:
  "kv \<in> set (map_modify k f m) \<Longrightarrow> kv \<in> set m \<or> (\<exists>v. (k, v) \<in> set m \<and> kv = (k, f v))"
  by (induction m) (auto split: if_splits)

lemma wf_directory_map_modify:
  "wf_directory m \<Longrightarrow> (\<And>r. name (f r) = name r) \<Longrightarrow> wf_directory (map_modify k f m)"
  unfolding wf_directory_def by (auto dest!: set_map_modify)

lemma good_map_modify:
  "\<forall>kv \<in> set m. good_record (snd kv) \<Longrightarrow> (\<And>r. good_record r \<Longrightarrow> good_record (f r))
   \<Longrightarrow> \<forall>kv \<in> set (map_modify k f m). good_record (snd kv)"
  by (auto dest!: set_map_modify)

subsection \<open>dispatch\<close>

lemma dispatch_inv:
  assumes "dispatcher_inv s" "set ns \<subseteq> set (map fst (augmentors s))"
  shows "\<exists>s'. dispatch entry ns s = Inr s' \<and> dispatcher_inv s'
           \<and> map fst (augmentors s') = map fst (augmentors s)
           \<and> inbox s' = inbox s \<and> augmenting s' = augmenting s \<and> fired s' = fired s
           \<and> idle s' = idle s \<and> allAugmentors s' = allAugmentors s \<and> retired s' = retired s"
  using assms
proof (induction ns arbitrary: s)
  case Nil
  then show ?case by simp
next
  case (Cons n ns)
  from Cons.prems obtain aug where aug: "map_of (augmentors s) n = Some aug"
    by (cases "map_of (augmentors s) n") (auto simp: map_of_eq_None_iff)
  show ?case
  proof (cases "fst (pickInstance aug)")
    case None
    let ?s1 = "s\<lparr>hits := hits s @ [''augmentor.'' @ n @ ''.noAvailableInstances'']\<rparr>"
    have "dispatcher_inv ?s1" using Cons.prems by (simp add: dispatcher_inv_def)
    moreover have "set ns \<subseteq> set (map fst (augmentors ?s1))" using Cons.prems by simp
    ultimately show ?thesis using Cons.IH[of ?s1] aug None by simp
  next
    case (Some i)
    let ?s1 = "s\<lparr>augmentors := map_modify n (\<lambda>aug. snd (pickInstance aug)) (augmentors s),
                  hits := hits s @
                      [''augmentor.'' @ n @ ''.instances.'' @ addr (instances aug ! i) @ ''.requests''],
                  sent := sent s @
                      [AUGMENT (addr (instances aug ! i)) n
                         (auction_id (auction (info entry)))
                         (requestStrFormat (auction (info entry)))
                         (requestStr (auction (info entry)))
                         (collect_agents (potentialGroups (info entry)))]\<rparr>"
    have "\<forall>kv \<in> set (map_modify n (\<lambda>aug. snd (pickInstance aug)) (augmentors s)). good_record (snd kv)"
      using Cons.prems(1) by (intro good_map_modify) (simp_all add: dispatcher_inv_def pickInstance_good)
    then have "dispatcher_inv ?s1" using Cons.prems(1)
      by (simp add: dispatcher_inv_def wf_directory_map_modify)
    moreover have "set ns \<subseteq> set (map fst (augmentors ?s1))" using Cons.prems by simp
    ultimately show ?thesis using Cons.IH[of ?s1] aug Some by simp
  qed
qed


subsection \<open>doAugmentation\<close>

lemma doAugmentation_inv:
  assumes "dispatcher_inv s" "set (outstanding entry) \<subseteq> set (map fst (augmentors s))"
  shows "\<exists>s'. doAugmentation entry s = Inr s' \<and> dispatcher_inv s'"
proof (cases "tm_count (auction_id (auction (info entry))) (augmenting s)")
  case True
  with assms show ?thesis by (simp add: doAugmentation_def dispatcher_inv_def)
next
  case False
  let ?s1 = "s\<lparr>augmenting := map_put (auction_id (auction (info entry))) (entry, timeout entry) (augmenting s)\<rparr>"
  have "dispatcher_inv ?s1" using assms by (simp add: dispatcher_inv_def)
  moreover have "set (outstanding entry) \<subseteq> set (map fst (augmentors ?s1))" using assms by simp
  ultimately obtain s' where "dispatch entry (outstanding entry) ?s1 = Inr s'" "dispatcher_inv s'"
    using dispatch_inv[of ?s1 "outstanding entry" entry] by blast
  moreover from this have "dispatcher_inv (s'\<lparr>idle := False\<rparr>)" by (simp add: dispatcher_inv_def)
  ultimately show ?thesis using False by (simp add: doAugmentation_def tm_insert_def)
qed

subsection \<open>doResponse\<close>

lemma sint_INT_MIN: "sint INT_MIN = - 2147483648"
  by (simp add: INT_MIN_def)

lemma decrement_no_overflow:
  assumes "n \<noteq> INT_MIN"
  shows "sint (n - 1) = sint n - 1"
proof -
  have "sint n \<noteq> sint INT_MIN" using assms by (auto dest: signed_word_eqI)
  moreover have "- (2 ^ 31) \<le> sint n" using sint_ge[of n] by simp
  moreover have "sint n < 2 ^ 31" using sint_lt[of n] by simp
  ultimately show ?thesis
    by (simp add: sint_word_ariths signed_take_bit_int_eq_self sint_INT_MIN)
qed

lemma release_instance_good:
  "release_instance a xs = Inr ys \<Longrightarrow>
     map addr ys = map addr xs
     \<and> ((\<forall>it \<in> set xs. bounded_instance it) \<longrightarrow> (\<forall>it \<in> set ys. bounded_instance it))"
proof (induction xs arbitrary: ys)
  case Nil
  then show ?case by simp
next
  case (Cons it xs)
  show ?case
  proof (cases "addr it = a")
    case True
    with Cons.prems have ne: "numInFlight it \<noteq> INT_MIN"
      and ys: "ys = it\<lparr>numInFlight := numInFlight it - 1\<rparr> # xs"
      by (auto split: if_splits)
    have "bounded_instance it \<Longrightarrow> bounded_instance (it\<lparr>numInFlight := numInFlight it - 1\<rparr>)"
      using decrement_no_overflow[OF ne] by (simp add: bounded_instance_def word_sle_eq)
    with ys show ?thesis by simp
  next
    case False
    with Cons.prems obtain ys' where "release_instance a xs = Inr ys'" "ys = it # ys'"
      by (auto split: sum.splits)
    with Cons.IH[of ys'] show ?thesis by simp
  qed
qed

lemma release_instance_error: "release_instance a xs = Inl e \<Longrightarrow> e = SignedOverflow"
  by (induction xs) (auto split: if_splits sum.splits)

lemma release_inv:
  assumes "release augmentor a dir = Inr dir'" "wf_directory dir" "\<forall>kv \<in> set dir. good_record (snd kv)"
  shows "wf_directory dir' \<and> (\<forall>kv \<in> set dir'. good_record (snd kv)) \<and> map fst dir' = map fst dir"
proof (cases "map_of dir augmentor")
  case None
  with assms show ?thesis by (simp add: release_def)
next
  case (Some aug)
  with assms(1) obtain insts where i: "release_instance a (instances aug) = Inr insts"
    and d: "dir' = map_modify augmentor (\<lambda>aug. aug\<lparr>instances := insts\<rparr>) dir"
    by (auto simp: release_def split: sum.splits)
  from Some have "(augmentor, aug) \<in> set dir" by (rule map_of_SomeD)
  with assms(3) have g: "good_record aug" by auto
  with release_instance_good[OF i] have g': "good_record (aug\<lparr>instances := insts\<rparr>)"
    by (simp add: good_record_def)
  have "kv \<in> set dir' \<Longrightarrow> good_record (snd kv)" for kv
  proof -
    assume "kv \<in> set dir'"
    with d consider "kv \<in> set dir" | v where "(augmentor, v) \<in> set dir" "kv = (augmentor, v\<lparr>instances := insts\<rparr>)"
      by (auto dest!: set_map_modify)
    then show ?thesis
    proof cases
      case 1
      with assms(3) show ?thesis by auto
    next
      case 2
      with assms(2) Some have "v = aug" by (simp add: wf_directory_def)
      with 2 g' show ?thesis by simp
    qed
  qed
  moreover have "wf_directory dir'" unfolding d using assms(2) by (rule wf_directory_map_modify) simp
  ultimately show ?thesis using d by simp
qed

lemma release_error: "release augmentor a dir = Inl e \<Longrightarrow> e = SignedOverflow"
  by (auto simp: release_def split: option.splits sum.splits dest: release_instance_error)

lemma doResponse_inv:
  assumes "dispatcher_inv s" "doResponse ext message s = Inr s'"
  shows "dispatcher_inv s'"
proof -
  from assms(2) obtain dir where r: "release (message ! 5) (message ! 0) (augmentors s) = Inr dir"
    and s': "augmentors s' = dir" "allAugmentors s' = allAugmentors s" "retired s' = retired s"
            "inbox s' = inbox s"
    by (auto simp: doResponse_def split: if_splits sum.splits option.splits prod.splits)
  from release_inv[OF r] assms(1) s' show ?thesis by (simp add: dispatcher_inv_def)
qed

lemma doResponse_error: "doResponse ext message s = Inl e \<Longrightarrow> e \<noteq> NullAugmentor"
  by (auto simp: doResponse_def split: if_splits sum.splits option.splits prod.splits dest: release_error)


subsection \<open>doDisconnection and doConfig\<close>

lemma updateAllAugmentors_error: "updateAllAugmentors s = Inl e \<Longrightarrow> e \<noteq> NullAugmentor"
  by (auto simp: updateAllAugmentors_def split: if_splits)

lemma doDisconnection_error: "doDisconnection a aug s = Inl e \<Longrightarrow> e \<noteq> NullAugmentor"
  by (auto simp: doDisconnection_def disconnect_loop_eq split: if_splits dest: updateAllAugmentors_error)

lemma set_map_erase: "set (map_erase k m) = {kv \<in> set m. fst kv \<noteq> k}"
  by (auto simp: map_erase_def)

lemma map_fst_map_erase: "map fst (map_erase k m) = removeAll k (map fst m)"
  by (induction m) (auto simp: map_erase_def)

lemma doDisconnection_upto:
  assumes "dispatcher_inv s" and "doDisconnection a n s = Inr s1"
  shows "inv_upto (insert n (set (map fst (augmentors s1)))) s1
           \<and> set (map fst (augmentors s)) \<subseteq> insert n (set (map fst (augmentors s1)))
           \<and> set (map fst (augmentors s1)) \<subseteq> set (map fst (augmentors s))
           \<and> (\<forall>r. map_of (augmentors s1) n = Some r \<longrightarrow> a \<notin> addr ` set (instances r))"
proof -
  let ?dir = "augmentors s"
  from assms(1) have wf: "wf_directory ?dir" and good: "\<forall>kv \<in> set ?dir. good_record (snd kv)"
    and snaps: "\<forall>snap \<in> set (allAugmentors s # retired s). sorted snap \<and> set snap \<subseteq> set (map fst ?dir)"
    and inb: "\<forall>e \<in> set (inbox s). set (outstanding e) \<subseteq> set (map fst ?dir)"
    by (simp_all add: dispatcher_inv_def)
  note r = doDisconnection_result[OF wf, of a n]
  show ?thesis
  proof (cases "\<exists>r. map_of ?dir n = Some r \<and> instances r = []")
    case True
    let ?s1 = "s\<lparr>augmentors := map_erase n ?dir,
                 allAugmentors := sort (map fst (map_erase n ?dir)),
                 retired := allAugmentors s # retired s\<rparr>"
    from True r assms(2) have s1: "s1 = ?s1" by auto
    have keys: "set (map fst (map_erase n ?dir)) = set (map fst ?dir) - {n}"
      by (simp add: map_fst_map_erase)
    then have keys': "fst ` set (map_erase n ?dir) = fst ` set ?dir - {n}" by simp
    have "set (map_erase n ?dir) \<subseteq> set ?dir" by (auto simp: map_erase_def)
    with good have g1: "\<forall>kv \<in> set (map_erase n ?dir). good_record (snd kv)"
      by blast
    have wf1: "wf_directory (map_erase n ?dir)"
      using wf by (simp add: wf_directory_map_erase)
    have sn1: "\<forall>snap \<in> set (sort (map fst (map_erase n ?dir)) # allAugmentors s # retired s).
                 sorted snap \<and> set snap \<subseteq> insert n (set (map fst (map_erase n ?dir)))"
      using snaps keys' by auto
    have in1: "\<forall>e \<in> set (inbox s). set (outstanding e) \<subseteq> insert n (set (map fst (map_erase n ?dir)))"
      using inb keys' by auto
    have "inv_upto (insert n (set (map fst (augmentors ?s1)))) ?s1"
      using g1 wf1 sn1 in1 unfolding inv_upto_def by simp
    moreover have "map_of (augmentors ?s1) n = None" by (simp add: map_of_map_erase)
    ultimately show ?thesis unfolding s1 using keys by auto
  next
    case False
    with r assms(2) have s1: "s1 = s"
      and fresh: "\<forall>r. map_of ?dir n = Some r \<longrightarrow> a \<notin> addr ` set (instances r)"
      by (auto split: option.splits if_splits)
    have sn1: "\<forall>snap \<in> set (allAugmentors s # retired s).
                 sorted snap \<and> set snap \<subseteq> insert n (set (map fst ?dir))"
      using snaps by auto
    have in1: "\<forall>e \<in> set (inbox s). set (outstanding e) \<subseteq> insert n (set (map fst ?dir))"
      using inb by auto
    have "inv_upto (insert n (set (map fst ?dir))) s"
      using good wf sn1 in1 unfolding inv_upto_def by simp
    with fresh show ?thesis unfolding s1 by auto
  qed
qed

lemma set_map_put_absent:
  "k \<notin> set (map fst m) \<Longrightarrow> set (map_put k v m) = insert (k, v) (set m)"
proof (induction m)
  case Nil
  then show ?case by simp
next
  case (Cons kv m)
  obtain k' v' where kv: "kv = (k', v')" by (cases kv)
  with Cons.prems have "k \<noteq> k'" "k \<notin> set (map fst m)" by auto
  with Cons.IH kv show ?case by (cases "k < k'") auto
qed

lemma set_map_fst_map_put: "fst ` set (map_put k v m) = insert k (fst ` set m)"
proof (induction m)
  case Nil
  then show ?case by simp
next
  case (Cons kv m)
  obtain k' v' where kv: "kv = (k', v')" by (cases kv)
  show ?case
  proof (cases "k = k'")
    case True
    with kv show ?thesis by simp
  next
    case False
    with Cons.IH kv show ?thesis by (cases "k < k'") (simp_all add: insert_commute)
  qed
qed

lemma distinct_map_put_absent:
  "k \<notin> set (map fst m) \<Longrightarrow> distinct (map fst m) \<Longrightarrow> distinct (map fst (map_put k v m))"
proof (induction m)
  case Nil
  then show ?case by simp
next
  case (Cons kv m)
  obtain k' v' where kv: "kv = (k', v')" by (cases kv)
  from Cons.prems kv have *: "k \<noteq> k'" "k \<notin> set (map fst m)" "k' \<notin> set (map fst m)" "distinct (map fst m)"
    by auto
  then have "k' \<notin> set (map fst (map_put k v m))" by (simp add: set_map_fst_map_put)
  with Cons.IH kv * show ?case by (cases "k < k'") simp_all
qed

lemma wf_directory_map_put:
  "wf_directory m \<Longrightarrow> k \<notin> set (map fst m) \<Longrightarrow> name r = k \<Longrightarrow> k \<noteq> [] \<Longrightarrow> wf_directory (map_put k r m)"
  using distinct_map_put_absent[of k m r]
  by (auto simp: wf_directory_def set_map_put_absent)

lemma config_add_inv:
  assumes up: "inv_upto (insert n (set (map fst (augmentors s1)))) s1"
    and n: "n \<noteq> []"
    and fresh: "\<forall>r. map_of (augmentors s1) n = Some r \<longrightarrow> a \<notin> addr ` set (instances r)"
    and m: "0 \<le>s m"
  shows "\<exists>s2. updateAllAugmentors
           (s1\<lparr>augmentors :=
                 (case map_of (augmentors s1) n of
                    None \<Rightarrow> map_put n \<lparr>name = n, instances = [\<lparr>addr = a, numInFlight = 0, maxInFlight = m\<rparr>]\<rparr> (augmentors s1)
                  | Some i \<Rightarrow> map_modify n (\<lambda>info. info\<lparr>instances := instances info @ [\<lparr>addr = a, numInFlight = 0, maxInFlight = m\<rparr>]\<rparr>) (augmentors s1)),
               hits := h\<rparr>) = Inr s2
         \<and> dispatcher_inv s2 \<and> set (map fst (augmentors s2)) = insert n (set (map fst (augmentors s1)))
         \<and> inbox s2 = inbox s1 \<and> augmenting s2 = augmenting s1 \<and> fired s2 = fired s1"
proof -
  let ?new = "\<lparr>addr = a, numInFlight = 0, maxInFlight = m\<rparr>"
  let ?dir = "augmentors s1"
  let ?dir2 = "case map_of ?dir n of
                    None \<Rightarrow> map_put n \<lparr>name = n, instances = [?new]\<rparr> ?dir
                  | Some i \<Rightarrow> map_modify n (\<lambda>info. info\<lparr>instances := instances info @ [?new]\<rparr>) ?dir"
  from up have wf: "wf_directory ?dir" and good: "\<forall>kv \<in> set ?dir. good_record (snd kv)"
    and snaps: "\<forall>snap \<in> set (allAugmentors s1 # retired s1). sorted snap \<and> set snap \<subseteq> insert n (set (map fst ?dir))"
    and inb: "\<forall>e \<in> set (inbox s1). set (outstanding e) \<subseteq> insert n (set (map fst ?dir))"
    by (simp_all add: inv_upto_def)
  have bnew: "bounded_instance ?new" using m by (simp add: bounded_instance_def)
  have d2: "wf_directory ?dir2 \<and> (\<forall>kv \<in> set ?dir2. good_record (snd kv))
            \<and> set (map fst ?dir2) = insert n (set (map fst ?dir))"
  proof (cases "map_of ?dir n")
    case None
    then have absent: "n \<notin> set (map fst ?dir)" by (simp add: map_of_eq_None_iff)
    have "good_record \<lparr>name = n, instances = [?new]\<rparr>" using bnew by (simp add: good_record_def)
    with None absent wf good n show ?thesis
      by (auto simp: wf_directory_map_put set_map_put_absent)
  next
    case (Some r)
    then have mem: "(n, r) \<in> set ?dir" by (rule map_of_SomeD)
    with good have gr: "good_record r" by auto
    from Some fresh have fr: "a \<notin> addr ` set (instances r)" by simp
    have g': "good_record (r\<lparr>instances := instances r @ [?new]\<rparr>)"
      using gr fr bnew by (auto simp: good_record_def)
    have "good_record (snd kv)" if "kv \<in> set (map_modify n (\<lambda>info. info\<lparr>instances := instances info @ [?new]\<rparr>) ?dir)" for kv
    proof -
      from that consider "kv \<in> set ?dir" | v where "(n, v) \<in> set ?dir" "kv = (n, v\<lparr>instances := instances v @ [?new]\<rparr>)"
        by (auto dest!: set_map_modify)
      then show ?thesis
      proof cases
        case 1
        with good show ?thesis by auto
      next
        case 2
        with wf Some have "v = r" by (simp add: wf_directory_def)
        with 2 g' show ?thesis by simp
      qed
    qed
    moreover have "wf_directory (map_modify n (\<lambda>info. info\<lparr>instances := instances info @ [?new]\<rparr>) ?dir)"
      using wf by (rule wf_directory_map_modify) simp
    moreover from mem have "n \<in> set (map fst ?dir)" by force
    ultimately show ?thesis using Some by auto
  qed
  let ?s = "s1\<lparr>augmentors := ?dir2, hits := h\<rparr>"
  from d2 have wf2: "wf_directory (augmentors ?s)" by simp
  let ?s2 = "?s\<lparr>allAugmentors := sort (map fst (augmentors ?s)), retired := allAugmentors ?s # retired ?s\<rparr>"
  have "dispatcher_inv ?s2"
    using d2 snaps inb by (auto simp: dispatcher_inv_def)
  moreover have "set (map fst (augmentors ?s2)) = insert n (set (map fst ?dir))" using d2 by simp
  ultimately show ?thesis using updateAllAugmentors_wf[OF wf2] by simp
qed


lemma config_maxInFlight_nonneg: "0 \<le>s default_maxInFlight parsed"
  by (simp add: default_maxInFlight_def word_sle_eq word_sless_alt)

lemma doConfig_inv:
  assumes inv: "dispatcher_inv s" and ok: "doConfig message s = Inr s'"
  shows "dispatcher_inv s'"
proof -
  let ?a = "message ! 0" and ?n = "message ! 3"
  from ok obtain parsed s1 s2 h where
    n: "?n \<noteq> []" and
    d: "doDisconnection ?a ?n s = Inr s1" and
    u: "updateAllAugmentors
          (s1\<lparr>augmentors :=
                (case map_of (augmentors s1) ?n of
                   None \<Rightarrow> map_put ?n \<lparr>name = ?n, instances = [\<lparr>addr = ?a, numInFlight = 0,
                              maxInFlight = default_maxInFlight parsed\<rparr>]\<rparr> (augmentors s1)
                 | Some i \<Rightarrow> map_modify ?n (\<lambda>info. info\<lparr>instances := instances info @
                              [\<lparr>addr = ?a, numInFlight = 0,
                                maxInFlight = default_maxInFlight parsed\<rparr>]\<rparr>) (augmentors s1)),
              hits := h\<rparr>) = Inr s2" and
    s': "s' = s2\<lparr>sent := sent s2 @ [CONFIGOK ?a]\<rparr>"
    unfolding doConfig_def by (auto split: if_splits sum.splits)
  from doDisconnection_upto[OF inv d]
  have up: "inv_upto (insert ?n (set (map fst (augmentors s1)))) s1"
    and fresh: "\<forall>r. map_of (augmentors s1) ?n = Some r \<longrightarrow> ?a \<notin> addr ` set (instances r)"
    by auto
  from config_add_inv[OF up n fresh config_maxInFlight_nonneg[of parsed], of h] u
  have "dispatcher_inv s2" by auto
  with s' show ?thesis by (simp add: dispatcher_inv_def)
qed

lemma stoi_error: "stoi str = Inl e \<Longrightarrow> e \<noteq> NullAugmentor"
  by (auto simp: stoi_def Let_def split: if_splits)

lemma doConfig_error: "doConfig message s = Inl e \<Longrightarrow> e \<noteq> NullAugmentor"
  unfolding doConfig_def
  by (auto simp: vec_index_def split: if_splits sum.splits
           dest: stoi_error doDisconnection_error updateAllAugmentors_error)

subsection \<open>checkExpiries\<close>

lemma fold_onExpired_frame:
  "augmentors (fold onExpired ns s) = augmentors s
   \<and> allAugmentors (fold onExpired ns s) = allAugmentors s
   \<and> retired (fold onExpired ns s) = retired s
   \<and> inbox (fold onExpired ns s) = inbox s
   \<and> augmenting (fold onExpired ns s) = augmenting s
   \<and> idle (fold onExpired ns s) = idle s"
  by (induction ns arbitrary: s) (simp_all add: onExpired_def)

lemma checkExpiries_frame:
  "augmentors (checkExpiries now s) = augmentors s
   \<and> allAugmentors (checkExpiries now s) = allAugmentors s
   \<and> retired (checkExpiries now s) = retired s
   \<and> inbox (checkExpiries now s) = inbox s"
  by (simp add: checkExpiries_def Let_def fold_onExpired_frame split: option.splits)

lemma checkExpiries_inv: "dispatcher_inv s \<Longrightarrow> dispatcher_inv (checkExpiries now s)"
  by (simp add: dispatcher_inv_def checkExpiries_frame)

subsection \<open>augment\<close>

lemma augment_with_inv:
  assumes "dispatcher_inv s" "sorted ai" "set ai \<subseteq> set (map fst (augmentors s))"
  shows "\<exists>s'. augment_with ai i t cb s = Inr s' \<and> dispatcher_inv s'"
proof -
  have "set (sorted_list_of_set (needed i \<inter> set ai)) \<subseteq> set (map fst (augmentors s))"
    using assms(3) by auto
  then show ?thesis
    using assms(1) unfolding augment_with_result[OF assms(2)]
    by (auto simp: dispatcher_inv_def)
qed

subsection \<open>The loop\<close>

lemma handleAugmentorMessage_inv:
  assumes "dispatcher_inv s"
  shows "(\<exists>s'. handleAugmentorMessage ext message s = Inr s' \<and> dispatcher_inv s')
       \<or> (\<exists>e. handleAugmentorMessage ext message s = Inl e \<and> e \<noteq> NullAugmentor)"
proof (cases "handleAugmentorMessage ext message s")
  case (Inl e)
  then have "e \<noteq> NullAugmentor"
    by (auto simp: handleAugmentorMessage_def vec_at_def split: if_splits
             dest: doConfig_error doResponse_error)
  with Inl show ?thesis by simp
next
  case (Inr s')
  then have "dispatcher_inv s'"
    using assms
    by (auto simp: handleAugmentorMessage_def vec_at_def split: if_splits
             dest: doConfig_inv doResponse_inv)
  with Inr show ?thesis by simp
qed

lemma step_inv:
  assumes inv: "dispatcher_inv s"
  shows "(\<exists>s'. step ext ev s = Inr s' \<and> dispatcher_inv s')
       \<or> (\<exists>e. step ext ev s = Inl e \<and> e \<noteq> NullAugmentor)"
proof (cases ev)
  case (Augment i t cb)
  from inv have "sorted (allAugmentors s)" "set (allAugmentors s) \<subseteq> set (map fst (augmentors s))"
    by (simp_all add: dispatcher_inv_def)
  from augment_with_inv[OF inv this] Augment show ?thesis by (simp add: augment_def)
next
  case (AugmentStale k i t cb)
  show ?thesis
  proof (cases "k < length (retired s)")
    case True
    then have "retired s ! k \<in> set (retired s)" by simp
    with inv have "sorted (retired s ! k)" "set (retired s ! k) \<subseteq> set (map fst (augmentors s))"
      by (simp_all add: dispatcher_inv_def)
    from augment_with_inv[OF inv this] AugmentStale True show ?thesis by simp
  next
    case False
    from inv have "sorted (allAugmentors s)" "set (allAugmentors s) \<subseteq> set (map fst (augmentors s))"
      by (simp_all add: dispatcher_inv_def)
    from augment_with_inv[OF inv this] AugmentStale False show ?thesis by (simp add: augment_def)
  qed
next
  case InboxEvent
  show ?thesis
  proof (cases "inbox s")
    case Nil
    with InboxEvent inv show ?thesis by simp
  next
    case (Cons entry rest)
    with inv have "dispatcher_inv (s\<lparr>inbox := rest\<rparr>)"
      and "set (outstanding entry) \<subseteq> set (map fst (augmentors (s\<lparr>inbox := rest\<rparr>)))"
      by (simp_all add: dispatcher_inv_def)
    from doAugmentation_inv[OF this] InboxEvent Cons show ?thesis by simp
  qed
next
  case (AugmentorMessage message)
  with handleAugmentorMessage_inv[OF inv] show ?thesis by simp
next
  case (Disconnection a)
  from inv have wf: "wf_directory (augmentors s)" by (simp add: dispatcher_inv_def)
  from doDisconnection_unnamed[OF wf, of a] inv Disconnection show ?thesis by simp
next
  case (CheckExpiries now)
  with checkExpiries_inv[OF inv] show ?thesis by simp
qed

lemma run_inv:
  assumes "dispatcher_inv s"
  shows "(\<exists>s'. run ext evs s = Inr s' \<and> dispatcher_inv s')
       \<or> (\<exists>e. run ext evs s = Inl e \<and> e \<noteq> NullAugmentor)"
  using assms
proof (induction evs arbitrary: s)
  case Nil
  then show ?case by simp
next
  case (Cons ev evs)
  from step_inv[OF Cons.prems, of ext ev] show ?case
  proof
    assume "\<exists>s'. step ext ev s = Inr s' \<and> dispatcher_inv s'"
    then obtain s1 where "step ext ev s = Inr s1" "dispatcher_inv s1" by blast
    with Cons.IH[of s1] show ?thesis by simp
  next
    assume "\<exists>e. step ext ev s = Inl e \<and> e \<noteq> NullAugmentor"
    then show ?thesis by auto
  qed
qed


section \<open>Safety of the directory lookups and of the in-flight counters\<close>

lemma run_directory_wf:
  "run ext evs init = Inr s \<Longrightarrow>
     wf_directory (augmentors s) \<and> (\<forall>kv \<in> set (augmentors s). distinct (map addr (instances (snd kv))))"
  using run_inv[OF dispatcher_inv_init, of ext evs]
  by (auto simp: dispatcher_inv_def good_record_def)

lemma run_snapshot_sorted:
  "run ext evs init = Inr s \<Longrightarrow>
     sorted (allAugmentors s) \<and> set (allAugmentors s) \<subseteq> set (map fst (augmentors s))"
  using run_inv[OF dispatcher_inv_init, of ext evs]
  by (auto simp: dispatcher_inv_def)

text \<open>
  Claim C10. No run of the loop from the constructed dispatcher ends in the dereference
  of a null augmentor record: whenever \<open>doAugmentation\<close> looks up
  \<open>augmentors[name]\<close> for an outstanding name of a drained entry, the name is in the
  directory. The entries are those that \<open>augment\<close> pushed, from the published
  snapshot or from a retired one; a disconnection removes no augmentor, and
  \<open>doConfig\<close> puts back the one its own call of \<open>doDisconnection\<close> may erase.
\<close>

theorem outstanding_names_are_registered:
  "run ext evs init \<noteq> Inl NullAugmentor"
  using run_inv[OF dispatcher_inv_init, of ext evs] by auto

text \<open>
  Claim C2, as the code has it. After every run of the loop, every instance of the
  directory has \<open>numInFlight \<le> maxInFlight\<close> and \<open>0 \<le> maxInFlight\<close>, and
  \<open>pickInstance\<close> increments only an instance with \<open>numInFlight < maxInFlight\<close>.
  Nothing is said of \<open>0 \<le> numInFlight\<close>.
\<close>

theorem numInFlight_at_most_maxInFlight:
  assumes "run ext evs init = Inr s"
  shows "(\<forall>kv \<in> set (augmentors s). \<forall>it \<in> set (instances (snd kv)).
            numInFlight it \<le>s maxInFlight it \<and> 0 \<le>s maxInFlight it)
       \<and> (fst (pickInstance r) = Some k \<longrightarrow>
            k < length (instances r) \<and> numInFlight (instances r ! k) <s maxInFlight (instances r ! k))"
proof -
  from run_inv[OF dispatcher_inv_init, of ext evs] assms have "dispatcher_inv s" by auto
  then have "\<forall>kv \<in> set (augmentors s). \<forall>it \<in> set (instances (snd kv)).
            numInFlight it \<le>s maxInFlight it \<and> 0 \<le>s maxInFlight it"
    by (simp add: dispatcher_inv_def good_record_def bounded_instance_def)
  moreover have "k < length (instances r) \<and> numInFlight (instances r ! k) <s maxInFlight (instances r ! k)"
    if "fst (pickInstance r) = Some k"
  proof -
    from that have "pickInstance_loop (instances r) 0 None INT_MAX = Some k"
      by (simp add: pickInstance_def split: option.splits)
    from pickInstance_loop_bound[OF this] show ?thesis by (simp add: has_capacity_def)
  qed
  ultimately show ?thesis by blast
qed

theorem numInFlight_at_most_maxInFlight_witness:
  "\<exists>s. run example_externals
         [AugmentorMessage [''A'', ''CONFIG'', ''1.0'', ''geo''],
          Augment \<lparr>auction = \<lparr>auction_id = ''1'', requestStrFormat = ''f'', requestStr = ''r'',
                      augmentations = []\<rparr>,
                   potentialGroups = [[\<lparr>agent = ''x'', config_augmentations = [''geo'']\<rparr>]]\<rparr> 50 7,
          InboxEvent] init = Inr s
       \<and> map (\<lambda>kv. map (\<lambda>it. (sint (numInFlight it), sint (maxInFlight it))) (instances (snd kv)))
           (augmentors s) = [[(1, 3000)]]
       \<and> (\<forall>kv \<in> set (augmentors s). \<forall>it \<in> set (instances (snd kv)).
            numInFlight it \<le>s maxInFlight it \<and> 0 \<le>s maxInFlight it)"
proof (cases "run example_externals
         [AugmentorMessage [''A'', ''CONFIG'', ''1.0'', ''geo''],
          Augment \<lparr>auction = \<lparr>auction_id = ''1'', requestStrFormat = ''f'', requestStr = ''r'',
                      augmentations = []\<rparr>,
                   potentialGroups = [[\<lparr>agent = ''x'', config_augmentations = [''geo'']\<rparr>]]\<rparr> 50 7,
          InboxEvent] init")
  case (Inl e)
  then show ?thesis
    by (simp add: init_def handleAugmentorMessage_def vec_at_def doConfig_def doDisconnection_def
          updateAllAugmentors_def augment_def augment_with_def collect_augmentors_def
          insort_insert_key_def doAugmentation_def tm_count_def tm_insert_def pickInstance_def
          INT_MAX_def bump_instance_def default_maxInFlight_def word_sle_eq word_sless_alt)
next
  case (Inr s)
  from numInFlight_at_most_maxInFlight[OF Inr] have b:
    "\<forall>kv \<in> set (augmentors s). \<forall>it \<in> set (instances (snd kv)).
            numInFlight it \<le>s maxInFlight it \<and> 0 \<le>s maxInFlight it" by blast
  from Inr have "map (\<lambda>kv. map (\<lambda>it. (sint (numInFlight it), sint (maxInFlight it))) (instances (snd kv)))
           (augmentors s) = [[(1, 3000)]]"
    by (auto simp: init_def handleAugmentorMessage_def vec_at_def doConfig_def doDisconnection_def
          updateAllAugmentors_def augment_def augment_with_def collect_augmentors_def
          insort_insert_key_def doAugmentation_def tm_count_def tm_insert_def pickInstance_def
          INT_MAX_def bump_instance_def default_maxInFlight_def word_sle_eq word_sless_alt)
  with Inr b show ?thesis by - (rule exI[of _ s], (rule conjI | assumption)+)
qed

text \<open>
  An augmentor registers and then sends a RESPONSE frame that answers no request, as
  one does whose answer to a request from before its reconnection arrives after it:
  \<open>doResponse\<close> decrements the counter of the instance below zero.
\<close>

theorem numInFlight_negative_counterexample:
  "run example_externals
     [AugmentorMessage [''A'', ''CONFIG'', ''1.0'', ''geo''],
      AugmentorMessage [''A'', ''RESPONSE'', ''1.0'', ''0'', ''1'', ''geo'', '''']] init =
   Inr \<lparr>augmentors =
          [(''geo'', \<lparr>name = ''geo'', instances =
              [\<lparr>addr = ''A'', numInFlight = - 1, maxInFlight = 3000\<rparr>]\<rparr>)],
        allAugmentors = [''geo''], retired = [[]], inbox = [], augmenting = [], idle = True,
        fired = [],
        hits =
          [''augmentor.geo.configured'', ''augmentor.geo.instances.A.configured'',
           ''augmentation.response'', ''augmentor.geo.timeTakenMs'',
           ''augmentor.geo.responseLengthBytes'', ''augmentation.unknown'',
           ''augmentor.geo.instances.A.unknown''],
        sent = [CONFIGOK ''A'']\<rparr>
   \<and> sint (- 1 :: cint) = - 1"
  by (simp add: init_def handleAugmentorMessage_def vec_at_def doConfig_def doDisconnection_def
        updateAllAugmentors_def doResponse_def release_def INT_MIN_def tm_find_def
        example_externals_def default_maxInFlight_def word_sle_eq word_sless_alt
        decode_payload_def)

section \<open>Every callback is accounted for\<close>

subsection \<open>Counting in association lists\<close>

lemma count_map_put_absent:
  "k \<notin> fst ` set m \<Longrightarrow>
     length (filter P (map_put k v m)) = length (filter P m) + (if P (k, v) then 1 else 0)"
  by (induction m) auto

lemma count_erase_found:
  "map_of m k = Some v \<Longrightarrow>
     length (filter P (erase_found k m)) + (if P (k, v) then 1 else 0) = length (filter P m)"
  by (induction m) (auto split: if_splits)

lemma count_map_modify:
  "(\<And>v. P (k, f v) = P (k, v)) \<Longrightarrow> length (filter P (map_modify k f m)) = length (filter P m)"
  by (induction m) auto

lemma count_sort_key: "length (filter P (sort_key f xs)) = length (filter P xs)"
  by (simp add: filter_sort)

lemma count_partition:
  "length (filter P (filter Q m)) + length (filter P (filter (\<lambda>x. \<not> Q x) m)) = length (filter P m)"
  by (induction m) auto

subsection \<open>What each handler does to the inbox, the index and the callbacks\<close>

lemma augment_merge_hits:
  "augment_merge as bs (out, hs) = Inr (out', hs') \<Longrightarrow> set hs \<subseteq> set hs'"
  by (induction as bs "(out, hs)" arbitrary: out hs rule: augment_merge.induct)
     (auto split: if_splits)

lemma augment_with_frame:
  assumes "augment_with ai i t cb' s = Inr s'"
  shows "augmenting s' = augmenting s \<and> set (hits s) \<subseteq> set (hits s')
       \<and> ((fired s' = fired s @ [(cb', i)] \<and> inbox s' = inbox s)
          \<or> (fired s' = fired s \<and> (\<exists>e. inbox s' = inbox s @ [e] \<and> onFinished e = cb')))"
  using assms by (auto simp: augment_with_def split: sum.splits prod.splits if_splits)

lemma dispatch_frame:
  "dispatch entry ns s = Inr s' \<Longrightarrow>
     inbox s' = inbox s \<and> augmenting s' = augmenting s \<and> fired s' = fired s
     \<and> set (hits s) \<subseteq> set (hits s')"
proof (induction ns arbitrary: s)
  case Nil
  then show ?case by simp
next
  case (Cons n ns)
  then show ?case
    by (fastforce split: option.splits)
qed

lemma doAugmentation_frame:
  assumes "doAugmentation entry s = Inr s'"
  shows "fired s' = fired s \<and> inbox s' = inbox s \<and> set (hits s) \<subseteq> set (hits s')
       \<and> (if tm_count (auction_id (auction (info entry))) (augmenting s)
           then augmenting s' = augmenting s \<and> ''duplicateAuction'' \<in> set (hits s')
           else augmenting s' = map_put (auction_id (auction (info entry))) (entry, timeout entry) (augmenting s))"
proof (cases "tm_count (auction_id (auction (info entry))) (augmenting s)")
  case True
  with assms show ?thesis by (auto simp: doAugmentation_def)
next
  case False
  with assms obtain s1 where
    d: "dispatch entry (outstanding entry)
          (s\<lparr>augmenting := map_put (auction_id (auction (info entry))) (entry, timeout entry) (augmenting s)\<rparr>) = Inr s1"
    and s': "s' = s1\<lparr>idle := False\<rparr>"
    by (auto simp: doAugmentation_def tm_insert_def split: sum.splits)
  from dispatch_frame[OF d] s' False show ?thesis by simp
qed

lemma doResponse_frame:
  assumes "doResponse ext message s = Inr s'"
  shows "inbox s' = inbox s \<and> set (hits s) \<subseteq> set (hits s')
       \<and> ((fired s' = fired s \<and> augmenting s' = augmenting s)
          \<or> (\<exists>e t i. map_of (augmenting s) (message ! 4) = Some (e, t)
                \<and> fired s' = fired s @ [(onFinished e, i)]
                \<and> augmenting s' = erase_found (message ! 4) (augmenting s))
          \<or> (\<exists>f. (\<forall>n. onFinished (fst (f n)) = onFinished (fst n))
                \<and> fired s' = fired s
                \<and> augmenting s' = map_modify (message ! 4) f (augmenting s)))"
proof (cases "tm_find (message ! 4) (augmenting s)")
  case None
  with assms show ?thesis
    by (auto simp: doResponse_def split: if_splits sum.splits)
next
  case (Some found)
  obtain entry deadline where f: "found = (entry, deadline)" by (cases found)
  show ?thesis
  proof (cases "removeAll (message ! 5) (outstanding entry) = []")
    case True
    with assms Some f have "inbox s' = inbox s" "set (hits s) \<subseteq> set (hits s')"
      "\<exists>i. fired s' = fired s @ [(onFinished entry, i)]"
      "augmenting s' = erase_found (message ! 4) (augmenting s)"
      by (auto simp: doResponse_def tm_erase_def split: if_splits sum.splits)
    with Some f show ?thesis by (auto simp: tm_find_def)
  next
    case False
    let ?f = "\<lambda>node. ((fst node)\<lparr>info :=
                                      merge_augmentation ext (message ! 5)
                                        (fst (decode_payload ext (message ! 5) (message ! 6)))
                                        (info (fst node)),
                                    outstanding := removeAll (message ! 5) (outstanding (fst node))\<rparr>,
                                   snd node)"
    from assms Some f False have *: "inbox s' = inbox s" "set (hits s) \<subseteq> set (hits s')"
      "fired s' = fired s"
      "augmenting s' = map_modify (message ! 4) ?f (augmenting s)"
      by (auto simp: doResponse_def split: if_splits sum.splits)
    have "\<exists>f. (\<forall>n. onFinished (fst (f n)) = onFinished (fst n))
                \<and> fired s' = fired s
                \<and> augmenting s' = map_modify (message ! 4) f (augmenting s)"
      by (rule exI[of _ ?f]) (simp add: *)
    with *(1,2) show ?thesis by blast
  qed
qed

lemma updateAllAugmentors_frame:
  "updateAllAugmentors s = Inr s' \<Longrightarrow>
     inbox s' = inbox s \<and> augmenting s' = augmenting s \<and> fired s' = fired s \<and> hits s' = hits s"
  by (auto simp: updateAllAugmentors_def split: if_splits)

lemma doDisconnection_frame:
  "doDisconnection a aug s = Inr s' \<Longrightarrow>
     inbox s' = inbox s \<and> augmenting s' = augmenting s \<and> fired s' = fired s
     \<and> set (hits s) \<subseteq> set (hits s')"
  by (auto simp: doDisconnection_def disconnect_loop_eq split: if_splits dest!: updateAllAugmentors_frame)

lemma doConfig_frame:
  assumes "doConfig message s = Inr s'"
  shows "inbox s' = inbox s \<and> augmenting s' = augmenting s \<and> fired s' = fired s
     \<and> set (hits s) \<subseteq> set (hits s')"
proof -
  from assms obtain s1 s2 d h where
    d: "doDisconnection (message ! 0) (message ! 3) s = Inr s1" and
    u: "updateAllAugmentors (s1\<lparr>augmentors := d, hits := hits s1 @ h\<rparr>) = Inr s2" and
    s': "s' = s2\<lparr>sent := sent s2 @ [CONFIGOK (message ! 0)]\<rparr>"
    unfolding doConfig_def by (auto split: if_splits sum.splits)
  from doDisconnection_frame[OF d] updateAllAugmentors_frame[OF u] s' show ?thesis by auto
qed

lemma fold_onExpired_fired:
  "fired (fold onExpired ns s) = fired s @ map (\<lambda>n. (onFinished (fst (snd n)), info (fst (snd n)))) ns"
  by (induction ns arbitrary: s) (simp_all add: onExpired_def)

lemma fold_onExpired_hits: "set (hits s) \<subseteq> set (hits (fold onExpired ns s))"
proof (induction ns arbitrary: s)
  case Nil
  show ?case by simp
next
  case (Cons n ns)
  have "set (hits s) \<subseteq> set (hits (onExpired n s))" by (simp add: onExpired_def)
  also have "\<dots> \<subseteq> set (hits (fold onExpired ns (onExpired n s)))" by (rule Cons.IH)
  finally show ?case by simp
qed

lemma checkExpiries_cases:
  "(tm_earliest (augmenting s) = None \<or> (\<exists>t. tm_earliest (augmenting s) = Some t \<and> now < t))
     \<and> fired (checkExpiries now s) = fired s \<and> augmenting (checkExpiries now s) = augmenting s
     \<and> set (hits s) \<subseteq> set (hits (checkExpiries now s))
   \<or> (\<exists>t. tm_earliest (augmenting s) = Some t \<and> t \<le> now)
     \<and> fired (checkExpiries now s) =
          fired s @ map (\<lambda>n. (onFinished (fst (snd n)), info (fst (snd n)))) (tm_expired now (augmenting s))
     \<and> augmenting (checkExpiries now s) = tm_remaining now (augmenting s)
     \<and> set (hits s) \<subseteq> set (hits (checkExpiries now s))"
proof (cases "\<exists>t. tm_earliest (augmenting s) = Some t \<and> t \<le> now")
  case True
  let ?s1 = "fold onExpired (tm_expired now (augmenting s))
               (s\<lparr>augmenting := tm_remaining now (augmenting s)\<rparr>)"
  from True have ce: "checkExpiries now s = (if augmenting ?s1 = [] \<and> \<not> idle ?s1 then ?s1\<lparr>idle := True\<rparr> else ?s1)"
    by (auto simp: checkExpiries_def Let_def)
  have "fired (checkExpiries now s) = fired ?s1" "augmenting (checkExpiries now s) = augmenting ?s1"
    "hits (checkExpiries now s) = hits ?s1"
    unfolding ce by simp_all
  moreover have "fired ?s1 = fired s @ map (\<lambda>n. (onFinished (fst (snd n)), info (fst (snd n)))) (tm_expired now (augmenting s))"
    by (simp add: fold_onExpired_fired)
  moreover have "augmenting ?s1 = tm_remaining now (augmenting s)"
    by (simp add: fold_onExpired_frame)
  moreover have "set (hits s) \<subseteq> set (hits ?s1)"
    using fold_onExpired_hits[of "s\<lparr>augmenting := tm_remaining now (augmenting s)\<rparr>"] by simp
  ultimately show ?thesis using True by simp
next
  case False
  then have "checkExpiries now s = (if augmenting s = [] \<and> \<not> idle s then s\<lparr>idle := True\<rparr> else s)"
    by (auto simp: checkExpiries_def Let_def split: option.splits)
  then have "fired (checkExpiries now s) = fired s" "augmenting (checkExpiries now s) = augmenting s"
    "hits (checkExpiries now s) = hits s"
    by simp_all
  moreover from False have "tm_earliest (augmenting s) = None \<or> (\<exists>t. tm_earliest (augmenting s) = Some t \<and> now < t)"
    by (cases "tm_earliest (augmenting s)") auto
  ultimately show ?thesis by simp
qed


subsection \<open>Every step accounts for every callback\<close>

lemma fired_count_map:
  "length (filter (\<lambda>f. fst f = cb) (map (\<lambda>n. (onFinished (fst (snd n)), info (fst (snd n)))) ns))
     = length (filter (\<lambda>n. onFinished (fst (snd n)) = cb) ns)"
  by (induction ns) auto

lemma augment_with_count:
  assumes "augment_with ai i t cb' s = Inr s'"
  shows "total_count cb s' = total_count cb s + (if cb' = cb then 1 else 0)
       \<and> set (hits s) \<subseteq> set (hits s') \<and> fired_count cb s \<le> fired_count cb s'"
  using augment_with_frame[OF assms]
  by (auto simp: total_count_def fired_count_def queued_count_def pending_count_def)

lemma doAugmentation_count:
  assumes "doAugmentation entry (s\<lparr>inbox := rest\<rparr>) = Inr s'" "inbox s = entry # rest"
  shows "total_count cb s' \<le> total_count cb s
       \<and> (''duplicateAuction'' \<notin> set (hits s') \<longrightarrow> total_count cb s' = total_count cb s)
       \<and> set (hits s) \<subseteq> set (hits s') \<and> fired_count cb s \<le> fired_count cb s'"
proof (cases "tm_count (auction_id (auction (info entry))) (augmenting s)")
  case True
  with doAugmentation_frame[OF assms(1)] assms(2) show ?thesis
    by (auto simp: total_count_def fired_count_def queued_count_def pending_count_def)
next
  case False
  then have "auction_id (auction (info entry)) \<notin> fst ` set (augmenting s)"
    by (simp add: tm_count_def)
  from count_map_put_absent[OF this, of "\<lambda>n. onFinished (fst (snd n)) = cb" "(entry, timeout entry)"]
    doAugmentation_frame[OF assms(1)] assms(2) False
  show ?thesis
    by (auto simp: total_count_def fired_count_def queued_count_def pending_count_def)
qed

lemma doResponse_count:
  assumes "doResponse ext message s = Inr s'"
  shows "total_count cb s' = total_count cb s
       \<and> set (hits s) \<subseteq> set (hits s') \<and> fired_count cb s \<le> fired_count cb s'"
proof -
  from doResponse_frame[OF assms] have inb: "inbox s' = inbox s" and h: "set (hits s) \<subseteq> set (hits s')"
    by simp_all
  from doResponse_frame[OF assms] consider
      (same) "fired s' = fired s" "augmenting s' = augmenting s"
    | (fire) e t i where "map_of (augmenting s) (message ! 4) = Some (e, t)"
        "fired s' = fired s @ [(onFinished e, i)]"
        "augmenting s' = erase_found (message ! 4) (augmenting s)"
    | (part) f where "\<forall>n. onFinished (fst (f n)) = onFinished (fst n)"
        "fired s' = fired s" "augmenting s' = map_modify (message ! 4) f (augmenting s)"
    by blast
  then show ?thesis
  proof cases
    case same
    with inb h show ?thesis
      by (simp add: total_count_def fired_count_def queued_count_def pending_count_def)
  next
    case fire
    from count_erase_found[OF fire(1), of "\<lambda>n. onFinished (fst (snd n)) = cb"] fire inb h
    show ?thesis
      by (auto simp: total_count_def fired_count_def queued_count_def pending_count_def split: if_splits)
  next
    case part
    from part(1) have pf: "\<And>v. onFinished (fst (f v)) = onFinished (fst v)" by blast
    have "length (filter (\<lambda>n. onFinished (fst (snd n)) = cb) (map_modify (message ! 4) f (augmenting s)))
        = length (filter (\<lambda>n. onFinished (fst (snd n)) = cb) (augmenting s))"
      by (intro count_map_modify) (simp add: pf)
    with part inb h show ?thesis
      by (simp add: total_count_def fired_count_def queued_count_def pending_count_def)
  qed
qed

lemma checkExpiries_count:
  "total_count cb (checkExpiries now s) = total_count cb s
   \<and> set (hits s) \<subseteq> set (hits (checkExpiries now s))
   \<and> fired_count cb s \<le> fired_count cb (checkExpiries now s)"
proof -
  have inb: "inbox (checkExpiries now s) = inbox s" by (simp add: checkExpiries_frame)
  from checkExpiries_cases[of s now] show ?thesis
  proof
    assume "(tm_earliest (augmenting s) = None \<or> (\<exists>t. tm_earliest (augmenting s) = Some t \<and> now < t))
     \<and> fired (checkExpiries now s) = fired s \<and> augmenting (checkExpiries now s) = augmenting s
     \<and> set (hits s) \<subseteq> set (hits (checkExpiries now s))"
    with inb show ?thesis
      by (simp add: total_count_def fired_count_def queued_count_def pending_count_def)
  next
    assume a: "(\<exists>t. tm_earliest (augmenting s) = Some t \<and> t \<le> now)
     \<and> fired (checkExpiries now s) =
          fired s @ map (\<lambda>n. (onFinished (fst (snd n)), info (fst (snd n)))) (tm_expired now (augmenting s))
     \<and> augmenting (checkExpiries now s) = tm_remaining now (augmenting s)
     \<and> set (hits s) \<subseteq> set (hits (checkExpiries now s))"
    have "length (filter (\<lambda>n. onFinished (fst (snd n)) = cb) (tm_expired now (augmenting s)))
          + length (filter (\<lambda>n. onFinished (fst (snd n)) = cb) (tm_remaining now (augmenting s)))
          = length (filter (\<lambda>n. onFinished (fst (snd n)) = cb) (augmenting s))"
      unfolding tm_expired_def tm_remaining_def count_sort_key by (rule count_partition)
    with a inb show ?thesis
      by (simp add: total_count_def fired_count_def queued_count_def pending_count_def comp_def)
  qed
qed

lemma frame_count:
  assumes "inbox s' = inbox s \<and> augmenting s' = augmenting s \<and> fired s' = fired s
     \<and> set (hits s) \<subseteq> set (hits s')"
  shows "total_count cb s' = total_count cb s
       \<and> set (hits s) \<subseteq> set (hits s') \<and> fired_count cb s \<le> fired_count cb s'"
  using assms by (simp add: total_count_def fired_count_def queued_count_def pending_count_def)

lemma step_count:
  assumes "step ext ev s = Inr s'"
  shows "total_count cb s' \<le> total_count cb s + event_count cb ev
       \<and> (''duplicateAuction'' \<notin> set (hits s') \<longrightarrow> total_count cb s' = total_count cb s + event_count cb ev)
       \<and> set (hits s) \<subseteq> set (hits s') \<and> fired_count cb s \<le> fired_count cb s'"
proof (cases ev)
  case (Augment i t cb')
  with assms augment_with_count[of "allAugmentors s" i t cb' s s' cb] show ?thesis
    by (simp add: augment_def)
next
  case (AugmentStale k i t cb')
  with assms augment_with_count[of "allAugmentors s" i t cb' s s' cb]
    augment_with_count[of "retired s ! k" i t cb' s s' cb] show ?thesis
    by (simp add: augment_def split: if_splits)
next
  case InboxEvent
  show ?thesis
  proof (cases "inbox s")
    case Nil
    with InboxEvent assms show ?thesis by auto
  next
    case (Cons entry rest)
    with InboxEvent assms have "doAugmentation entry (s\<lparr>inbox := rest\<rparr>) = Inr s'" by simp
    from doAugmentation_count[OF this Cons, of cb] InboxEvent show ?thesis by simp
  qed
next
  case (AugmentorMessage message)
  with assms consider "doConfig message s = Inr s'" | "doResponse ext message s = Inr s'"
    by (auto simp: handleAugmentorMessage_def split: sum.splits if_splits)
  then show ?thesis
  proof cases
    case 1
    from frame_count[OF doConfig_frame[OF 1], of cb] AugmentorMessage show ?thesis by simp
  next
    case 2
    from doResponse_count[OF 2, of cb] AugmentorMessage show ?thesis by simp
  qed
next
  case (Disconnection a)
  with assms have "doDisconnection a no_augmentor s = Inr s'" by simp
  from frame_count[OF doDisconnection_frame[OF this], of cb] Disconnection show ?thesis by simp
next
  case (CheckExpiries now)
  with assms checkExpiries_count[of cb now s] show ?thesis by auto
qed

lemma run_count:
  assumes "run ext evs s = Inr s'"
  shows "total_count cb s' \<le> total_count cb s + augment_count cb evs
       \<and> (''duplicateAuction'' \<notin> set (hits s') \<longrightarrow> total_count cb s' = total_count cb s + augment_count cb evs)
       \<and> set (hits s) \<subseteq> set (hits s') \<and> fired_count cb s \<le> fired_count cb s'"
  using assms
proof (induction evs arbitrary: s)
  case Nil
  then show ?case by (simp add: augment_count_def)
next
  case (Cons ev evs)
  then obtain s1 where st: "step ext ev s = Inr s1" and r: "run ext evs s1 = Inr s'"
    by (auto split: sum.splits)
  note a = step_count[OF st, of cb] and b = Cons.IH[OF r]
  have le: "total_count cb s' \<le> total_count cb s + augment_count cb (ev # evs)"
    using a b by (simp add: augment_count_def)
  have eq: "total_count cb s' = total_count cb s + augment_count cb (ev # evs)"
    if "''duplicateAuction'' \<notin> set (hits s')"
  proof -
    from that b have "''duplicateAuction'' \<notin> set (hits s1)" by blast
    with a b that show ?thesis by (simp add: augment_count_def)
  qed
  from a b have "set (hits s) \<subseteq> set (hits s')" "fired_count cb s \<le> fired_count cb s'"
    by auto
  with le eq show ?case by blast
qed


subsection \<open>The exact account, with the entries dropped as duplicates\<close>

lemma doAugmentation_account:
  assumes "doAugmentation entry (s\<lparr>inbox := rest\<rparr>) = Inr s'" "inbox s = entry # rest"
  shows "total_count cb s'
           + (if onFinished entry = cb \<and> tm_count (auction_id (auction (info entry))) (augmenting s)
              then 1 else 0)
         = total_count cb s"
proof (cases "tm_count (auction_id (auction (info entry))) (augmenting s)")
  case True
  with doAugmentation_frame[OF assms(1)] assms(2) show ?thesis
    by (auto simp: total_count_def fired_count_def queued_count_def pending_count_def)
next
  case False
  then have "auction_id (auction (info entry)) \<notin> fst ` set (augmenting s)"
    by (simp add: tm_count_def)
  from count_map_put_absent[OF this, of "\<lambda>n. onFinished (fst (snd n)) = cb" "(entry, timeout entry)"]
    doAugmentation_frame[OF assms(1)] assms(2) False
  show ?thesis
    by (auto simp: total_count_def fired_count_def queued_count_def pending_count_def)
qed

lemma step_account:
  assumes "step ext ev s = Inr s'"
  shows "total_count cb s' + dropped_now cb ev s = total_count cb s + event_count cb ev"
proof (cases ev)
  case (Augment i t cb')
  with assms augment_with_count[of "allAugmentors s" i t cb' s s' cb] show ?thesis
    by (simp add: augment_def)
next
  case (AugmentStale k i t cb')
  with assms augment_with_count[of "allAugmentors s" i t cb' s s' cb]
    augment_with_count[of "retired s ! k" i t cb' s s' cb] show ?thesis
    by (simp add: augment_def split: if_splits)
next
  case InboxEvent
  show ?thesis
  proof (cases "inbox s")
    case Nil
    with InboxEvent assms show ?thesis by auto
  next
    case (Cons entry rest)
    with InboxEvent assms have "doAugmentation entry (s\<lparr>inbox := rest\<rparr>) = Inr s'" by simp
    from doAugmentation_account[OF this Cons, of cb] InboxEvent Cons show ?thesis by simp
  qed
next
  case (AugmentorMessage message)
  with assms consider "doConfig message s = Inr s'" | "doResponse ext message s = Inr s'"
    by (auto simp: handleAugmentorMessage_def split: sum.splits if_splits)
  then show ?thesis
  proof cases
    case 1
    from frame_count[OF doConfig_frame[OF 1], of cb] AugmentorMessage show ?thesis by simp
  next
    case 2
    from doResponse_count[OF 2, of cb] AugmentorMessage show ?thesis by simp
  qed
next
  case (Disconnection a)
  with assms have "doDisconnection a no_augmentor s = Inr s'" by simp
  from frame_count[OF doDisconnection_frame[OF this], of cb] Disconnection show ?thesis by simp
next
  case (CheckExpiries now)
  with assms checkExpiries_count[of cb now s] show ?thesis by auto
qed

lemma run_account:
  assumes "run ext evs s = Inr s'"
  shows "total_count cb s' + dropped_count cb ext evs s = total_count cb s + augment_count cb evs"
  using assms
proof (induction evs arbitrary: s)
  case Nil
  then show ?case by (simp add: augment_count_def)
next
  case (Cons ev evs)
  then obtain s1 where st: "step ext ev s = Inr s1" and r: "run ext evs s1 = Inr s'"
    by (auto split: sum.splits)
  from step_account[OF st, of cb] Cons.IH[OF r] st show ?case
    by (simp add: augment_count_def)
qed

lemma run_append:
  "run ext (evs @ later) s = (case run ext evs s of Inl e \<Rightarrow> Inl e | Inr s1 \<Rightarrow> run ext later s1)"
  by (induction evs arbitrary: s) (auto split: sum.splits)

lemma dropped_count_append:
  assumes "run ext evs s = Inr s1"
  shows "dropped_count cb ext (evs @ later) s = dropped_count cb ext evs s + dropped_count cb ext later s1"
  using assms by (induction evs arbitrary: s) (auto split: sum.splits)

section \<open>Callbacks fire at most once; duplicates are dropped\<close>

lemma total_count_init: "total_count cb init = 0"
  by (simp add: total_count_def fired_count_def queued_count_def pending_count_def init_def)

text \<open>
  Claim C1, as the code has it. Take a run of the loop from the constructed dispatcher,
  written as a first part and what follows it, and a callback that is given to at most
  one call of \<open>augment\<close>, so that it stands for one entry. The calls of the callback,
  the inbox entries and the index entries that carry it, and the entries with it that
  \<open>doAugmentation\<close> has dropped as duplicates add up to the number of calls of
  \<open>augment\<close> it was given to. So no interleaving of \<open>augment\<close>, inbox drains,
  CONFIG and RESPONSE frames, disconnections and \<open>checkExpiries\<close> calls it twice; an
  entry that has left the inbox and the index, and was not dropped, has had its callback
  called exactly once; and once the entry has been dropped its callback is never called,
  however the run goes on.
\<close>

theorem onFinished_at_most_once:
  assumes "run ext (evs @ later) init = Inr s" and "augment_count cb (evs @ later) \<le> 1"
  shows "fired_count cb s + queued_count cb s + pending_count cb s
           + dropped_count cb ext (evs @ later) init = augment_count cb (evs @ later)
       \<and> fired_count cb s \<le> 1
       \<and> (0 < dropped_count cb ext evs init \<longrightarrow> fired_count cb s = 0)"
proof -
  from assms(1) obtain s1 where s1: "run ext evs init = Inr s1"
    by (auto simp: run_append split: sum.splits)
  from run_account[OF assms(1), of cb]
  have acc: "fired_count cb s + queued_count cb s + pending_count cb s
           + dropped_count cb ext (evs @ later) init = augment_count cb (evs @ later)"
    by (simp add: total_count_init) (simp add: total_count_def)
  from dropped_count_append[OF s1, of cb later]
  have "dropped_count cb ext evs init \<le> dropped_count cb ext (evs @ later) init" by simp
  with acc assms(2) show ?thesis by auto
qed

text \<open>
  Two calls of \<open>augment\<close> for the auction id 42, with the callbacks 1 and 2, and one
  for the auction id 43, with the callback 3; all three are drained, the second is
  dropped as a duplicate, and the deadline passes. The callback 3 has been called
  exactly once, the callback 2 never.
\<close>

theorem onFinished_at_most_once_witness:
  "augment_count 2
     (([AugmentorMessage [''A'', ''CONFIG'', ''1.0'', ''geo''],
       Augment \<lparr>auction = \<lparr>auction_id = ''42'', requestStrFormat = ''f'', requestStr = ''r'',
                   augmentations = []\<rparr>,
                potentialGroups = [[\<lparr>agent = ''x'', config_augmentations = [''geo'']\<rparr>]]\<rparr> 50 1,
       Augment \<lparr>auction = \<lparr>auction_id = ''42'', requestStrFormat = ''f'', requestStr = ''r'',
                   augmentations = []\<rparr>,
                potentialGroups = [[\<lparr>agent = ''x'', config_augmentations = [''geo'']\<rparr>]]\<rparr> 50 2,
       Augment \<lparr>auction = \<lparr>auction_id = ''43'', requestStrFormat = ''f'', requestStr = ''r'',
                   augmentations = []\<rparr>,
                potentialGroups = [[\<lparr>agent = ''x'', config_augmentations = [''geo'']\<rparr>]]\<rparr> 50 3,
       InboxEvent, InboxEvent, InboxEvent] :: string list event list) @ [CheckExpiries 50]) \<le> 1
   \<and> augment_count 3
     (([AugmentorMessage [''A'', ''CONFIG'', ''1.0'', ''geo''],
       Augment \<lparr>auction = \<lparr>auction_id = ''42'', requestStrFormat = ''f'', requestStr = ''r'',
                   augmentations = []\<rparr>,
                potentialGroups = [[\<lparr>agent = ''x'', config_augmentations = [''geo'']\<rparr>]]\<rparr> 50 1,
       Augment \<lparr>auction = \<lparr>auction_id = ''42'', requestStrFormat = ''f'', requestStr = ''r'',
                   augmentations = []\<rparr>,
                potentialGroups = [[\<lparr>agent = ''x'', config_augmentations = [''geo'']\<rparr>]]\<rparr> 50 2,
       Augment \<lparr>auction = \<lparr>auction_id = ''43'', requestStrFormat = ''f'', requestStr = ''r'',
                   augmentations = []\<rparr>,
                potentialGroups = [[\<lparr>agent = ''x'', config_augmentations = [''geo'']\<rparr>]]\<rparr> 50 3,
       InboxEvent, InboxEvent, InboxEvent] :: string list event list) @ [CheckExpiries 50]) \<le> 1
   \<and> dropped_count 2 example_externals
      [AugmentorMessage [''A'', ''CONFIG'', ''1.0'', ''geo''],
       Augment \<lparr>auction = \<lparr>auction_id = ''42'', requestStrFormat = ''f'', requestStr = ''r'',
                   augmentations = []\<rparr>,
                potentialGroups = [[\<lparr>agent = ''x'', config_augmentations = [''geo'']\<rparr>]]\<rparr> 50 1,
       Augment \<lparr>auction = \<lparr>auction_id = ''42'', requestStrFormat = ''f'', requestStr = ''r'',
                   augmentations = []\<rparr>,
                potentialGroups = [[\<lparr>agent = ''x'', config_augmentations = [''geo'']\<rparr>]]\<rparr> 50 2,
       Augment \<lparr>auction = \<lparr>auction_id = ''43'', requestStrFormat = ''f'', requestStr = ''r'',
                   augmentations = []\<rparr>,
                potentialGroups = [[\<lparr>agent = ''x'', config_augmentations = [''geo'']\<rparr>]]\<rparr> 50 3,
       InboxEvent, InboxEvent, InboxEvent] init = 1
   \<and> (\<exists>s. run example_externals
         ([AugmentorMessage [''A'', ''CONFIG'', ''1.0'', ''geo''],
       Augment \<lparr>auction = \<lparr>auction_id = ''42'', requestStrFormat = ''f'', requestStr = ''r'',
                   augmentations = []\<rparr>,
                potentialGroups = [[\<lparr>agent = ''x'', config_augmentations = [''geo'']\<rparr>]]\<rparr> 50 1,
       Augment \<lparr>auction = \<lparr>auction_id = ''42'', requestStrFormat = ''f'', requestStr = ''r'',
                   augmentations = []\<rparr>,
                potentialGroups = [[\<lparr>agent = ''x'', config_augmentations = [''geo'']\<rparr>]]\<rparr> 50 2,
       Augment \<lparr>auction = \<lparr>auction_id = ''43'', requestStrFormat = ''f'', requestStr = ''r'',
                   augmentations = []\<rparr>,
                potentialGroups = [[\<lparr>agent = ''x'', config_augmentations = [''geo'']\<rparr>]]\<rparr> 50 3,
       InboxEvent, InboxEvent, InboxEvent] @ [CheckExpiries 50]) init = Inr s
        \<and> inbox s = [] \<and> augmenting s = []
        \<and> fired_count 1 s = 1 \<and> fired_count 2 s = 0 \<and> fired_count 3 s = 1)"
proof -
  let ?evs = "[AugmentorMessage [''A'', ''CONFIG'', ''1.0'', ''geo''],
       Augment \<lparr>auction = \<lparr>auction_id = ''42'', requestStrFormat = ''f'', requestStr = ''r'',
                   augmentations = []\<rparr>,
                potentialGroups = [[\<lparr>agent = ''x'', config_augmentations = [''geo'']\<rparr>]]\<rparr> 50 1,
       Augment \<lparr>auction = \<lparr>auction_id = ''42'', requestStrFormat = ''f'', requestStr = ''r'',
                   augmentations = []\<rparr>,
                potentialGroups = [[\<lparr>agent = ''x'', config_augmentations = [''geo'']\<rparr>]]\<rparr> 50 2,
       Augment \<lparr>auction = \<lparr>auction_id = ''43'', requestStrFormat = ''f'', requestStr = ''r'',
                   augmentations = []\<rparr>,
                potentialGroups = [[\<lparr>agent = ''x'', config_augmentations = [''geo'']\<rparr>]]\<rparr> 50 3,
       InboxEvent, InboxEvent, InboxEvent] :: string list event list"
  let ?later = "[CheckExpiries 50] :: string list event list"
  note defs = init_def handleAugmentorMessage_def vec_at_def doConfig_def doDisconnection_def
          updateAllAugmentors_def augment_def augment_with_def collect_augmentors_def
          collect_agents_def insort_insert_key_def doAugmentation_def tm_count_def tm_insert_def
          pickInstance_def INT_MAX_def INT_MIN_def bump_instance_def default_maxInFlight_def
          word_sle_eq word_sless_alt checkExpiries_def tm_expired_def tm_remaining_def
          onExpired_def example_externals_def
  have c1: "augment_count 1 (?evs @ ?later) \<le> 1" by (simp add: augment_count_def)
  have c2: "augment_count 2 (?evs @ ?later) \<le> 1" by (simp add: augment_count_def)
  have c3: "augment_count 3 (?evs @ ?later) \<le> 1" by (simp add: augment_count_def)
  have n1: "augment_count 1 (?evs @ ?later) = 1" by (simp add: augment_count_def)
  have n3: "augment_count 3 (?evs @ ?later) = 1" by (simp add: augment_count_def)
  have d1: "dropped_count 1 example_externals (?evs @ ?later) init = 0" by (simp add: defs)
  have d2: "dropped_count 2 example_externals ?evs init = 1" by (simp add: defs)
  have d3: "dropped_count 3 example_externals (?evs @ ?later) init = 0" by (simp add: defs)
  show ?thesis
  proof (cases "run example_externals (?evs @ ?later) init")
    case (Inl e)
    then show ?thesis by (simp add: defs)
  next
    case (Inr s)
    from Inr have i: "inbox s = []" and a: "augmenting s = []"
      by (auto simp: defs)
    then have q: "queued_count cb s = 0" "pending_count cb s = 0" for cb
      by (simp_all add: queued_count_def pending_count_def)
    from onFinished_at_most_once[OF Inr c2] d2 have f2: "fired_count 2 s = 0" by simp
    from onFinished_at_most_once[OF Inr c1] d1 n1 q have f1: "fired_count 1 s = 1" by simp
    from onFinished_at_most_once[OF Inr c3] d3 n3 q have f3: "fired_count 3 s = 1" by simp
    from c2 c3 d2 Inr i a f1 f2 f3 show ?thesis
      by - ((rule conjI, assumption)+, rule exI[of _ s], (rule conjI | assumption)+)
  qed
qed

text \<open>
  Two calls of \<open>augment\<close> for the auction id 42, with the callbacks 1 and 2, both
  drained before the first completes. After the deadline the inbox and the index are
  empty and the only call on record is that of callback 1: the callback of the second
  entry was called zero times, and nothing is left that could call it.
\<close>

theorem onFinished_never_for_duplicate_counterexample:
  "run example_externals
     [AugmentorMessage [''A'', ''CONFIG'', ''1.0'', ''geo''],
      Augment \<lparr>auction = \<lparr>auction_id = ''42'', requestStrFormat = ''f'', requestStr = ''r'',
                  augmentations = []\<rparr>,
               potentialGroups = [[\<lparr>agent = ''x'', config_augmentations = [''geo'']\<rparr>]]\<rparr> 50 1,
      Augment \<lparr>auction = \<lparr>auction_id = ''42'', requestStrFormat = ''f'', requestStr = ''r'',
                  augmentations = []\<rparr>,
               potentialGroups = [[\<lparr>agent = ''x'', config_augmentations = [''geo'']\<rparr>]]\<rparr> 50 2,
      InboxEvent, InboxEvent, CheckExpiries 50] init =
   Inr \<lparr>augmentors =
          [(''geo'', \<lparr>name = ''geo'', instances =
              [\<lparr>addr = ''A'', numInFlight = 1, maxInFlight = 3000\<rparr>]\<rparr>)],
        allAugmentors = [''geo''], retired = [[]], inbox = [], augmenting = [], idle = True,
        fired =
          [(1, \<lparr>auction = \<lparr>auction_id = ''42'', requestStrFormat = ''f'', requestStr = ''r'',
                   augmentations = []\<rparr>,
                potentialGroups = [[\<lparr>agent = ''x'', config_augmentations = [''geo'']\<rparr>]]\<rparr>)],
        hits =
          [''augmentor.geo.configured'', ''augmentor.geo.instances.A.configured'',
           ''augmentation.request'', ''augmentor.geo.request'',
           ''augmentation.request'', ''augmentor.geo.request'',
           ''augmentor.geo.instances.A.requests'', ''duplicateAuction'',
           ''augmentor.geo.expiredTooLate''],
        sent = [CONFIGOK ''A'', AUGMENT ''A'' ''geo'' ''42'' ''f'' ''r'' [''x'']]\<rparr>"
  by (simp add: init_def handleAugmentorMessage_def vec_at_def doConfig_def doDisconnection_def
          updateAllAugmentors_def augment_def augment_with_def collect_augmentors_def
          collect_agents_def insort_insert_key_def doAugmentation_def tm_count_def tm_insert_def
          pickInstance_def INT_MAX_def bump_instance_def default_maxInFlight_def word_sle_eq
          word_sless_alt checkExpiries_def tm_expired_def tm_remaining_def onExpired_def)

section \<open>Expiry and duplicates\<close>


lemma tm_earliest_le:
  "(k, e, t) \<in> set m \<Longrightarrow> \<exists>t0. tm_earliest m = Some t0 \<and> t0 \<le> t"
proof (induction m)
  case Nil
  then show ?case by simp
next
  case (Cons n m)
  obtain k' e' t' where n: "n = (k', e', t')" by (cases n)
  show ?case
  proof (cases "(k, e, t) \<in> set m")
    case True
    with Cons.IH obtain t0 where "tm_earliest m = Some t0" "t0 \<le> t" by blast
    with n show ?thesis by auto
  next
    case False
    with Cons.prems n have "t' = t" by simp
    with n show ?thesis by (cases "tm_earliest m") auto
  qed
qed

lemma set_tm_expired: "set (tm_expired now m) = {n \<in> set m. snd (snd n) \<le> now}"
  by (simp add: tm_expired_def)

lemma checkExpiries_fires_expired:
  assumes "tm_find k (augmenting s) = Some (e, t)" "t \<le> now"
  shows "fired (checkExpiries now s) =
           fired s @ map (\<lambda>n. (onFinished (fst (snd n)), info (fst (snd n)))) (tm_expired now (augmenting s))
         \<and> (k, e, t) \<in> set (tm_expired now (augmenting s))"
proof -
  from assms(1) have mem: "(k, e, t) \<in> set (augmenting s)"
    by (simp add: tm_find_def map_of_SomeD)
  from tm_earliest_le[OF mem] obtain t0 where "tm_earliest (augmenting s) = Some t0" "t0 \<le> t" by blast
  with assms(2) checkExpiries_cases[of s now] mem show ?thesis
    by (auto simp: set_tm_expired)
qed

lemma checkExpiries_clears:
  "\<forall>n \<in> set (augmenting (checkExpiries now s)). now < snd (snd n)"
proof
  fix n assume n: "n \<in> set (augmenting (checkExpiries now s))"
  obtain k e t where nn: "n = (k, e, t)" by (cases n)
  from checkExpiries_cases[of s now] show "now < snd (snd n)"
  proof
    assume a: "(tm_earliest (augmenting s) = None \<or> (\<exists>t. tm_earliest (augmenting s) = Some t \<and> now < t))
     \<and> fired (checkExpiries now s) = fired s \<and> augmenting (checkExpiries now s) = augmenting s
     \<and> set (hits s) \<subseteq> set (hits (checkExpiries now s))"
    with n nn have "(k, e, t) \<in> set (augmenting s)" by simp
    from tm_earliest_le[OF this] a nn show ?thesis by auto
  next
    assume "(\<exists>t. tm_earliest (augmenting s) = Some t \<and> t \<le> now)
     \<and> fired (checkExpiries now s) =
          fired s @ map (\<lambda>n. (onFinished (fst (snd n)), info (fst (snd n)))) (tm_expired now (augmenting s))
     \<and> augmenting (checkExpiries now s) = tm_remaining now (augmenting s)
     \<and> set (hits s) \<subseteq> set (hits (checkExpiries now s))"
    with n show ?thesis by (auto simp: tm_remaining_def)
  qed
qed

text \<open>
  Claim C5. When \<open>doAugmentation\<close> is handed an entry whose auction id is in the
  deadline index, it records \<open>duplicateAuction\<close> and returns: the dispatcher is as
  before but for that counter, so the index, the directory and the first entry are
  untouched and no callback is called. The callback of the dropped entry is not called
  later either, in any run in which no other entry carries it and no later call of
  \<open>augment\<close> is given it. The first entry is still in the index with its deadline,
  and \<open>checkExpiries\<close> at or after that deadline calls its callback with its info.
\<close>

theorem duplicate_auction_dropped:
  assumes dup: "tm_count (auction_id (auction (info entry))) (augmenting s)"
  shows "doAugmentation entry s = Inr (s\<lparr>hits := hits s @ [''duplicateAuction'']\<rparr>)
       \<and> (run ext evs (s\<lparr>hits := hits s @ [''duplicateAuction'']\<rparr>) = Inr s'
            \<and> augment_count (onFinished entry) evs = 0
            \<and> queued_count (onFinished entry) s = 0 \<and> pending_count (onFinished entry) s = 0
          \<longrightarrow> fired_count (onFinished entry) s' = fired_count (onFinished entry) s)
       \<and> (tm_find (auction_id (auction (info entry))) (augmenting s) = Some (first, deadline)
            \<and> deadline \<le> now
          \<longrightarrow> (auction_id (auction (info entry)), first, deadline)
                  \<in> set (tm_expired now (augmenting s))
              \<and> fired (checkExpiries now (s\<lparr>hits := hits s @ [''duplicateAuction'']\<rparr>)) =
                  fired s @ map (\<lambda>n. (onFinished (fst (snd n)), info (fst (snd n))))
                                (tm_expired now (augmenting s)))"
proof (intro conjI impI)
  from dup show "doAugmentation entry s = Inr (s\<lparr>hits := hits s @ [''duplicateAuction'']\<rparr>)"
    by (simp add: doAugmentation_def)
next
  let ?s1 = "s\<lparr>hits := hits s @ [''duplicateAuction'']\<rparr>"
  let ?cb = "onFinished entry"
  assume a: "run ext evs ?s1 = Inr s' \<and> augment_count ?cb evs = 0
            \<and> queued_count ?cb s = 0 \<and> pending_count ?cb s = 0"
  then have r: "run ext evs ?s1 = Inr s'" by simp
  have t1: "total_count ?cb ?s1 = fired_count ?cb s"
    using a by (simp add: total_count_def fired_count_def queued_count_def pending_count_def)
  from run_count[OF r, of ?cb] a t1
  have "total_count ?cb s' \<le> fired_count ?cb s" "fired_count ?cb ?s1 \<le> fired_count ?cb s'"
    by simp_all
  moreover have "fired_count ?cb s' \<le> total_count ?cb s'" by (simp add: total_count_def)
  moreover have "fired_count ?cb ?s1 = fired_count ?cb s" by (simp add: fired_count_def)
  ultimately show "fired_count ?cb s' = fired_count ?cb s" by simp
next
  let ?s1 = "s\<lparr>hits := hits s @ [''duplicateAuction'']\<rparr>"
  assume a: "tm_find (auction_id (auction (info entry))) (augmenting s) = Some (first, deadline)
             \<and> deadline \<le> now"
  then have f: "tm_find (auction_id (auction (info entry))) (augmenting ?s1) = Some (first, deadline)"
    and d: "deadline \<le> now" by simp_all
  from checkExpiries_fires_expired[OF f d]
  show "(auction_id (auction (info entry)), first, deadline) \<in> set (tm_expired now (augmenting s))"
    and "fired (checkExpiries now ?s1) =
                  fired s @ map (\<lambda>n. (onFinished (fst (snd n)), info (fst (snd n))))
                                (tm_expired now (augmenting s))"
    by simp_all
qed


theorem duplicate_auction_dropped_witness:
  "tm_count (auction_id (auction (info
       \<lparr>info = \<lparr>auction = \<lparr>auction_id = ''42'', requestStrFormat = ''f'', requestStr = ''r'', augmentations = []\<rparr>, potentialGroups = []\<rparr>, outstanding = [''geo''], onFinished = 2, timeout = 50\<rparr>)))
     (augmenting ((init :: string list dispatcher)\<lparr>augmenting := [(''42'', \<lparr>info = \<lparr>auction = \<lparr>auction_id = ''42'', requestStrFormat = ''f'', requestStr = ''r'', augmentations = []\<rparr>, potentialGroups = []\<rparr>, outstanding = [''geo''], onFinished = 1, timeout = 50\<rparr>, 50)]\<rparr>))
   \<and> doAugmentation
       \<lparr>info = \<lparr>auction = \<lparr>auction_id = ''42'', requestStrFormat = ''f'', requestStr = ''r'', augmentations = []\<rparr>, potentialGroups = []\<rparr>, outstanding = [''geo''], onFinished = 2, timeout = 50\<rparr>
       ((init :: string list dispatcher)\<lparr>augmenting := [(''42'', \<lparr>info = \<lparr>auction = \<lparr>auction_id = ''42'', requestStrFormat = ''f'', requestStr = ''r'', augmentations = []\<rparr>, potentialGroups = []\<rparr>, outstanding = [''geo''], onFinished = 1, timeout = 50\<rparr>, 50)]\<rparr>)
     = Inr (((init :: string list dispatcher)\<lparr>augmenting := [(''42'', \<lparr>info = \<lparr>auction = \<lparr>auction_id = ''42'', requestStrFormat = ''f'', requestStr = ''r'', augmentations = []\<rparr>, potentialGroups = []\<rparr>, outstanding = [''geo''], onFinished = 1, timeout = 50\<rparr>, 50)]\<rparr>)\<lparr>hits := [''duplicateAuction'']\<rparr>)
   \<and> fired (checkExpiries 50 (((init :: string list dispatcher)\<lparr>augmenting := [(''42'', \<lparr>info = \<lparr>auction = \<lparr>auction_id = ''42'', requestStrFormat = ''f'', requestStr = ''r'', augmentations = []\<rparr>, potentialGroups = []\<rparr>, outstanding = [''geo''], onFinished = 1, timeout = 50\<rparr>, 50)]\<rparr>)\<lparr>hits := [''duplicateAuction'']\<rparr>))
     = [(1, \<lparr>auction = \<lparr>auction_id = ''42'', requestStrFormat = ''f'', requestStr = ''r'', augmentations = []\<rparr>, potentialGroups = []\<rparr>)]"
proof -
  have d: "tm_count (auction_id (auction (info
       \<lparr>info = \<lparr>auction = \<lparr>auction_id = ''42'', requestStrFormat = ''f'', requestStr = ''r'', augmentations = []\<rparr>, potentialGroups = []\<rparr>, outstanding = [''geo''], onFinished = 2, timeout = 50\<rparr>)))
     (augmenting ((init :: string list dispatcher)\<lparr>augmenting := [(''42'', \<lparr>info = \<lparr>auction = \<lparr>auction_id = ''42'', requestStrFormat = ''f'', requestStr = ''r'', augmentations = []\<rparr>, potentialGroups = []\<rparr>, outstanding = [''geo''], onFinished = 1, timeout = 50\<rparr>, 50)]\<rparr>))"
    by (simp add: tm_count_def init_def)
  from duplicate_auction_dropped [OF d, of example_externals "[]" "((init :: string list dispatcher)\<lparr>augmenting := [(''42'', \<lparr>info = \<lparr>auction = \<lparr>auction_id = ''42'', requestStrFormat = ''f'', requestStr = ''r'', augmentations = []\<rparr>, potentialGroups = []\<rparr>, outstanding = [''geo''], onFinished = 1, timeout = 50\<rparr>, 50)]\<rparr>)\<lparr>hits := [''duplicateAuction'']\<rparr>"
      "\<lparr>info = \<lparr>auction = \<lparr>auction_id = ''42'', requestStrFormat = ''f'', requestStr = ''r'', augmentations = []\<rparr>, potentialGroups = []\<rparr>, outstanding = [''geo''], onFinished = 1, timeout = 50\<rparr>" 50 50] d
  show ?thesis
    by (simp add: init_def tm_find_def tm_expired_def fired_count_def queued_count_def
          pending_count_def augment_count_def)
qed


section \<open>Properties of doResponse\<close>

lemma decode_payload_null:
  assumes "payload = [] \<or> payload = ''null'' \<or> parseAugmentationList ext payload = None"
  shows "fst (decode_payload ext aug payload) = emptyAugmentationList ext"
    and "snd (decode_payload ext aug payload) =
           (if payload = [] \<or> payload = ''null'' then []
            else [''augmentor.'' @ aug @ ''.responseParsingExceptions''])"
  using assms by (auto simp: decode_payload_def)

lemma doResponse_fires_with_info:
  assumes "doResponse ext [a, ty, v, ts, i, aug, payload] s = Inr s'"
  shows "fired s' = fired s
       \<or> (\<exists>e t. tm_find i (augmenting s) = Some (e, t)
            \<and> fired s' = fired s @
                 [(onFinished e,
                   merge_augmentation ext aug (fst (decode_payload ext aug payload)) (info e))])"
  using assms
  by (auto simp: doResponse_def split: if_splits sum.splits option.splits)

lemma doResponse_hits:
  assumes "doResponse ext [a, ty, v, ts, i, aug, payload] s = Inr s'"
  shows "\<exists>rest. hits s' = hits s @ [''augmentation.response'']
            @ snd (decode_payload ext aug payload)
            @ [''augmentor.'' @ aug @ ''.timeTakenMs'', ''augmentor.'' @ aug @ ''.responseLengthBytes'']
            @ rest
          \<and> ''augmentor.'' @ aug @ ''.responseParsingExceptions'' \<notin> set rest"
  using assms
  by (auto simp: doResponse_def split: if_splits sum.splits option.splits)

lemma doResponse_payload_only_through_decode:
  assumes "fst (decode_payload ext aug payload) = fst (decode_payload ext aug payload')"
  shows "map_sum id forget_hits (doResponse ext [a, ty, v, ts, i, aug, payload] s)
       = map_sum id forget_hits (doResponse ext [a, ty, v, ts, i, aug, payload'] s)"
  using assms
  by (auto simp: doResponse_def forget_hits_def split: if_splits sum.splits option.splits)


text \<open>
  Claim C8. For a RESPONSE frame whose payload is the empty string, the string
  \<open>null\<close>, or a string that the decoder rejects, \<open>doResponse\<close> merges the empty
  \<open>AugmentationList\<close>: but for the counters it does exactly what it does for the empty
  payload, whether it returns or throws. The counter
  \<open>augmentor.<name>.responseParsingExceptions\<close> is recorded once when the decoder
  rejected the payload and not otherwise. When the handler calls a callback, it is that
  of the entry of the auction, with the info of that entry after the merge; a decoding
  failure reaches the callback in no other way.
\<close>

theorem unparsable_payload_is_null_response:
  assumes "payload = [] \<or> payload = ''null'' \<or> parseAugmentationList ext payload = None"
  shows "fst (decode_payload ext aug payload) = emptyAugmentationList ext
       \<and> map_sum id forget_hits (doResponse ext [a, ty, v, ts, i, aug, payload] s)
           = map_sum id forget_hits (doResponse ext [a, ty, v, ts, i, aug, []] s)
       \<and> (doResponse ext [a, ty, v, ts, i, aug, payload] s = Inr s' \<longrightarrow>
            count_list (hits s') (''augmentor.'' @ aug @ ''.responseParsingExceptions'')
              = count_list (hits s) (''augmentor.'' @ aug @ ''.responseParsingExceptions'')
                + (if payload = [] \<or> payload = ''null'' then 0 else 1)
            \<and> (fired s' = fired s
               \<or> (\<exists>e t. tm_find i (augmenting s) = Some (e, t)
                    \<and> fired s' = fired s @
                         [(onFinished e,
                           merge_augmentation ext aug (emptyAugmentationList ext) (info e))])))"
proof (intro conjI impI)
  show e: "fst (decode_payload ext aug payload) = emptyAugmentationList ext"
    using assms by (rule decode_payload_null)
  have "fst (decode_payload ext aug []) = emptyAugmentationList ext"
    by (simp add: decode_payload_def)
  with e show "map_sum id forget_hits (doResponse ext [a, ty, v, ts, i, aug, payload] s)
           = map_sum id forget_hits (doResponse ext [a, ty, v, ts, i, aug, []] s)"
    by (intro doResponse_payload_only_through_decode) simp
next
  assume r: "doResponse ext [a, ty, v, ts, i, aug, payload] s = Inr s'"
  from doResponse_hits[OF r] obtain rest where
    h: "hits s' = hits s @ [''augmentation.response'']
            @ snd (decode_payload ext aug payload)
            @ [''augmentor.'' @ aug @ ''.timeTakenMs'', ''augmentor.'' @ aug @ ''.responseLengthBytes'']
            @ rest"
    and n: "''augmentor.'' @ aug @ ''.responseParsingExceptions'' \<notin> set rest"
    by blast
  from n have "count_list rest (''augmentor.'' @ aug @ ''.responseParsingExceptions'') = 0"
    by (simp add: count_list_0_iff)
  then show "count_list (hits s') (''augmentor.'' @ aug @ ''.responseParsingExceptions'')
              = count_list (hits s) (''augmentor.'' @ aug @ ''.responseParsingExceptions'')
                + (if payload = [] \<or> payload = ''null'' then 0 else 1)"
    unfolding h decode_payload_null(2)[OF assms] by simp
  from doResponse_fires_with_info[OF r] decode_payload_null(1)[OF assms, of aug]
  show "fired s' = fired s
               \<or> (\<exists>e t. tm_find i (augmenting s) = Some (e, t)
                    \<and> fired s' = fired s @
                         [(onFinished e,
                           merge_augmentation ext aug (emptyAugmentationList ext) (info e))])"
    by simp
qed

theorem unparsable_payload_is_null_response_witness:
  "parseAugmentationList example_externals ''garbled'' = None
   \<and> (\<exists>s'. doResponse example_externals [''A'', ''RESPONSE'', ''1.0'', ''0'', ''1'', ''geo'', ''garbled'']
              ((init :: string list dispatcher)\<lparr>augmenting := [(''1'', \<lparr>info = \<lparr>auction = \<lparr>auction_id = ''1'', requestStrFormat = ''f'', requestStr = ''r'', augmentations = []\<rparr>, potentialGroups = []\<rparr>, outstanding = [''geo''], onFinished = 7, timeout = 50\<rparr>, 50)]\<rparr>) = Inr s'
          \<and> count_list (hits s') ''augmentor.geo.responseParsingExceptions'' = 1
          \<and> fired s' =
              [(7, \<lparr>auction = \<lparr>auction_id = ''1'', requestStrFormat = ''f'', requestStr = ''r'',
                         augmentations = [(''geo'', [])]\<rparr>, potentialGroups = []\<rparr>)])"
proof -
  have p: "''garbled'' = [] \<or> ''garbled'' = ''null'' \<or> parseAugmentationList example_externals ''garbled'' = None"
    by (simp add: example_externals_def)
  note defs = init_def doResponse_def release_def tm_find_def tm_erase_def decode_payload_def
    merge_augmentation_def example_externals_def
  show ?thesis
  proof (cases "doResponse example_externals [''A'', ''RESPONSE'', ''1.0'', ''0'', ''1'', ''geo'', ''garbled'']
              ((init :: string list dispatcher)\<lparr>augmenting := [(''1'', \<lparr>info = \<lparr>auction = \<lparr>auction_id = ''1'', requestStrFormat = ''f'', requestStr = ''r'', augmentations = []\<rparr>, potentialGroups = []\<rparr>, outstanding = [''geo''], onFinished = 7, timeout = 50\<rparr>, 50)]\<rparr>)")
    case (Inl e)
    then show ?thesis by (simp add: defs)
  next
    case (Inr s')
    from unparsable_payload_is_null_response [OF p, of "''geo''" "''A''" "''RESPONSE''" "''1.0''" "''0''" "''1''"
        "((init :: string list dispatcher)\<lparr>augmenting := [(''1'', \<lparr>info = \<lparr>auction = \<lparr>auction_id = ''1'', requestStrFormat = ''f'', requestStr = ''r'', augmentations = []\<rparr>, potentialGroups = []\<rparr>, outstanding = [''geo''], onFinished = 7, timeout = 50\<rparr>, 50)]\<rparr>)" s'] Inr
    have c: "count_list (hits s') ''augmentor.geo.responseParsingExceptions'' = 1"
      by (simp add: init_def)
    from Inr have f: "fired s' =
              [(7, \<lparr>auction = \<lparr>auction_id = ''1'', requestStrFormat = ''f'', requestStr = ''r'',
                         augmentations = [(''geo'', [])]\<rparr>, potentialGroups = []\<rparr>)]"
      by (auto simp: defs)
    have n: "parseAugmentationList example_externals ''garbled'' = None"
      by (simp add: example_externals_def)
    from n Inr c f show ?thesis
      by - (rule conjI, assumption, rule exI[of _ s'], (rule conjI | assumption)+)
  qed
qed


section \<open>Properties of the compact vector\<close>

lemma length_move_to_end [simp]: "length (move_to_end n lo k es) = length es"
  by (induction k arbitrary: es) simp_all

lemma nth_move_to_end:
  "lo + k \<le> length es \<Longrightarrow> j < length es \<Longrightarrow>
     move_to_end n lo k es ! j = (if lo \<le> j \<and> j < lo + k then es ! (j - n) else es ! j)"
proof (induction k arbitrary: es)
  case 0
  then show ?case by auto
next
  case (Suc k)
  then show ?case by (auto simp: nth_list_update)
qed

lemma init_copy_appends:
  "length (m_data v) = m_size v \<Longrightarrow> m_size v + length xs \<le> to_alloc \<Longrightarrow> to_alloc \<le> room p v
   \<Longrightarrow> m_size v + length xs < 2 ^ 31
   \<Longrightarrow> init_copy p xs to_alloc v = Inr (v\<lparr>m_data := m_data v @ xs, m_size := m_size v + length xs\<rparr>)"
proof (induction xs arbitrary: v)
  case Nil
  then show ?case by simp
next
  case (Cons x xs)
  let ?v = "v\<lparr>m_data := m_data v @ [x], m_size := (m_size v + 1) mod 2 ^ 31\<rparr>"
  from Cons.prems have m: "(m_size v + 1) mod 2 ^ 31 = m_size v + 1" by simp
  have "init_copy p xs to_alloc ?v = Inr (?v\<lparr>m_data := m_data ?v @ xs, m_size := m_size ?v + length xs\<rparr>)"
    using Cons.prems m by (intro Cons.IH) (auto simp: room_def split: if_splits)
  with Cons.prems m show ?case by simp
qed

lemma construct_result:
  assumes "length src \<le> to_alloc" "to_alloc \<le> max_size" "length src < 2 ^ 31"
  shows "construct p src to_alloc =
           Inr \<lparr>m_size = length src, m_is_internal = (to_alloc \<le> Internal p),
                m_capacity = (if to_alloc \<le> Internal p then 0 else to_alloc), m_data = src\<rparr>"
proof (cases "to_alloc \<le> Internal p")
  case True
  let ?v = "(clear empty_vector)\<lparr>m_is_internal := True\<rparr> :: 'a compact_vector"
  have "init_copy p src to_alloc ?v = Inr (?v\<lparr>m_data := m_data ?v @ src, m_size := m_size ?v + length src\<rparr>)"
    using assms True by (intro init_copy_appends) (simp_all add: clear_def empty_vector_def room_def)
  with True assms show ?thesis
    by (simp add: construct_def init_vector_def clear_def empty_vector_def)
next
  case False
  let ?v = "(clear empty_vector)\<lparr>m_is_internal := False, m_capacity := to_alloc\<rparr> :: 'a compact_vector"
  have "init_copy p src to_alloc ?v = Inr (?v\<lparr>m_data := m_data ?v @ src, m_size := m_size ?v + length src\<rparr>)"
    using assms False by (intro init_copy_appends) (simp_all add: clear_def empty_vector_def room_def)
  with False assms show ?thesis
    by (simp add: construct_def init_vector_def clear_def empty_vector_def)
qed


lemma capacity_internal: "Internal p \<le> max_size \<Longrightarrow> Internal p mod 2 ^ 32 = Internal p"
  by (simp add: max_size_def)

lemma reserve_result:
  assumes v: "valid_vector p v" and grow: "capacity p v < nc" and nc: "nc \<le> max_size"
    and sz: "m_size v \<le> nc"
  shows "\<exists>v'. reserve p nc v = Inr v' \<and> m_data v' = m_data v \<and> m_size v' = m_size v
           \<and> valid_vector p v' \<and> nc \<le> room p v'"
proof -
  define to_alloc where "to_alloc = min (max ((capacity p v * 2) mod 2 ^ 32) nc) max_size"
  from nc have t: "nc \<le> to_alloc" "to_alloc \<le> max_size" by (simp_all add: to_alloc_def)
  from v have len: "length (m_data v) = m_size v" and lt: "m_size v < 2 ^ 31"
    and N: "Internal p \<le> max_size"
    by (simp_all add: valid_vector_def)
  from len have tk: "take (m_size v) (m_data v) = m_data v" by simp
  have c: "construct p (m_data v) to_alloc =
           Inr \<lparr>m_size = m_size v, m_is_internal = (to_alloc \<le> Internal p),
                m_capacity = (if to_alloc \<le> Internal p then 0 else to_alloc), m_data = m_data v\<rparr>"
    using construct_result[of "m_data v" to_alloc p] t sz len lt by simp
  have r: "reserve p nc v =
             Inr (fst (swap v \<lparr>m_size = m_size v, m_is_internal = (to_alloc \<le> Internal p),
                m_capacity = (if to_alloc \<le> Internal p then 0 else to_alloc), m_data = m_data v\<rparr>))"
    using grow c by (simp add: reserve_def tk to_alloc_def)
  show ?thesis
  proof (cases "m_is_internal v")
    case True
    with grow capacity_internal[OF N] have "Internal p < nc" by (simp add: capacity_def)
    with t have ext: "\<not> to_alloc \<le> Internal p" by simp
    with True r t sz v show ?thesis
      by (simp add: swap_def swap_internal_external_def valid_vector_def room_def)
  next
    case False
    show ?thesis
    proof (cases "to_alloc \<le> Internal p")
      case True
      with False r t sz v len show ?thesis
        by (simp add: swap_def swap_internal_external_def valid_vector_def room_def)
    next
      case ext: False
      with False r t sz v show ?thesis
        by (simp add: swap_def valid_vector_def room_def)
    qed
  qed
qed

lemma start_insert_result:
  assumes v: "valid_vector p v" and n: "0 < n" and i: "index \<le> m_size v"
    and fits: "m_size v + n < 2 ^ 31"
  shows "\<exists>v1. start_insert p dflt v index n = Inr v1
           \<and> m_size v1 = m_size v + n \<and> valid_vector p v1
           \<and> m_data v1 = take index (m_data v) @ take n (drop index (m_data v) @ replicate n dflt)
                         @ drop index (m_data v)"
proof -
  from v have len: "length (m_data v) = m_size v" and N: "Internal p \<le> max_size"
    by (simp_all add: valid_vector_def)
  from fits have m32: "(m_size v + n) mod 2 ^ 32 = m_size v + n"
    and m31: "(m_size v + n) mod 2 ^ 31 = m_size v + n" by simp_all
  from fits have ms: "m_size v + n \<le> max_size" by (simp add: max_size_def)
  obtain v1 where r: "(if capacity p v < (m_size v + n) mod 2 ^ 32
              then reserve p ((m_size v + n) mod 2 ^ 32) v else Inr v) = Inr v1"
    and d1: "m_data v1 = m_data v" and s1: "m_size v1 = m_size v" and v1: "valid_vector p v1"
    and rm: "m_size v + n \<le> room p v1"
  proof (cases "capacity p v < m_size v + n")
    case True
    from reserve_result[OF v True ms] obtain v' where "reserve p (m_size v + n) v = Inr v'"
      "m_data v' = m_data v" "m_size v' = m_size v" "valid_vector p v'" "m_size v + n \<le> room p v'"
      by auto
    with True m32 that show ?thesis by simp
  next
    case False
    then have "m_size v + n \<le> room p v"
      using capacity_internal[OF N] by (auto simp: capacity_def room_def split: if_splits)
    with False m32 v that show ?thesis by simp
  qed
  let ?es = "m_data v @ replicate n dflt"
  let ?res = "move_to_end n (index + n) (m_size v - index) ?es"
  have st: "start_insert p dflt v index n =
          Inr (v1\<lparr>m_size := m_size v + n, m_data := ?res\<rparr>)"
    using n i r d1 s1 rm len m31 unfolding start_insert_def
    by (simp add: m32 del: replicate.simps)
  have res: "?res = take index (m_data v) @ take n (drop index (m_data v) @ replicate n dflt)
                         @ drop index (m_data v)"
  proof (rule nth_equalityI)
    show "length ?res = length (take index (m_data v) @ take n (drop index (m_data v) @ replicate n dflt)
                         @ drop index (m_data v))"
      using i len by simp
  next
    fix j assume "j < length ?res"
    then have j: "j < m_size v + n" using len by simp
    have "?res ! j = (if index + n \<le> j \<and> j < index + n + (m_size v - index) then ?es ! (j - n) else ?es ! j)"
      using i len j by (intro nth_move_to_end) simp_all
    then show "?res ! j = (take index (m_data v) @ take n (drop index (m_data v) @ replicate n dflt)
                         @ drop index (m_data v)) ! j"
      using i len j by (auto simp: nth_append min_def)
  qed
  have "valid_vector p (v1\<lparr>m_size := m_size v + n, m_data := ?res\<rparr>)"
    using v1 rm fits len i by (auto simp: valid_vector_def room_def split: if_splits)
  with st res show ?thesis by simp
qed



text \<open>
  The same call with an element of the vector itself as the range, the one at the
  position \<open>a\<close>. When the vector has to grow, the element is read in the buffer that
  \<open>reserve\<close> has given up; when \<open>a\<close> is the position of the insertion, the
  destination of \<open>std::copy\<close> is inside its range. Otherwise the call returns, and
  what it has inserted is the element that stands at the position \<open>a\<close> after the
  elements from \<open>index\<close> on have moved up by one.
\<close>

lemma insert_own_element_result:
  assumes v: "valid_vector p v" and i: "index \<le> m_size v" and a: "a < m_size v"
    and fits: "m_size v + 1 < 2 ^ 31"
  shows "if capacity p v < m_size v + 1
         then insert_range p dflt v index (Within a 1) = Inl InvalidatedIterator
         else if index = a then insert_range p dflt v index (Within a 1) = Inl OverlappingCopy
         else \<exists>v1. insert_range p dflt v index (Within a 1) = Inr v1
                \<and> m_size v1 = m_size v + 1 \<and> valid_vector p v1
                \<and> m_data v1 = take index (m_data v)
                     @ (if a < index then m_data v ! a else m_data v ! (a - 1)) # drop index (m_data v)"
proof -
  from v have len: "length (m_data v) = m_size v" by (simp add: valid_vector_def)
  from fits have m32: "(m_size v + 1) mod 2 ^ 32 = m_size v + 1" by simp
  from start_insert_result[OF v _ i fits, of dflt] obtain v1 where
    st: "start_insert p dflt v index 1 = Inr v1" and s1: "m_size v1 = m_size v + 1"
    and v1: "valid_vector p v1"
    and d1: "m_data v1 = take index (m_data v) @ take 1 (drop index (m_data v) @ replicate 1 dflt)
                         @ drop index (m_data v)"
    by auto
  obtain y where y: "take 1 (drop index (m_data v) @ replicate 1 dflt) = [y]"
    by (cases "drop index (m_data v)") auto
  have l1: "length (m_data v1) = m_size v + 1" using v1 s1 by (simp add: valid_vector_def)
  show ?thesis
  proof (cases "capacity p v < m_size v + 1")
    case True
    with st m32 show ?thesis by (simp add: insert_range_def)
  next
    case nogrow: False
    show ?thesis
    proof (cases "index = a")
      case True
      with nogrow st m32 show ?thesis by (simp add: insert_range_def)
    next
      case False
      have nth: "m_data v1 ! a = (if a < index then m_data v ! a else m_data v ! (a - 1))"
        unfolding d1 y using i a len False by (auto simp: nth_append min_def)
      have tk: "take 1 (drop a (m_data v1)) = [m_data v1 ! a]"
        using a l1 by (simp add: take_Suc_conv_app_nth Cons_nth_drop_Suc[symmetric])
      have o: "overwrite index [m_data v1 ! a] (m_data v1)
             = take index (m_data v) @ m_data v1 ! a # drop index (m_data v)"
        unfolding overwrite_def using i len by (simp add: d1 y)
      have "valid_vector p (v1\<lparr>m_data := overwrite index [m_data v1 ! a] (m_data v1)\<rparr>)"
        using v1 s1 i len unfolding o by (auto simp: valid_vector_def split: if_splits)
      with nogrow False st m32 s1 l1 i a tk o nth show ?thesis
        by (simp add: insert_range_def)
    qed
  qed
qed

lemma erase_range_result:
  assumes v: "valid_vector p v" and f: "first_pos < last_pos" and l: "last_pos \<le> m_size v"
  shows "\<exists>v2. erase_range p dflt v first_pos last_pos = Inr v2
           \<and> m_size v2 = m_size v - (last_pos - first_pos) \<and> valid_vector p v2
           \<and> m_data v2 = take first_pos (m_data v) @ drop last_pos (m_data v)
           \<and> (m_is_internal v2 \<longleftrightarrow>
                m_is_internal v \<or> m_size v - (last_pos - first_pos) \<le> Internal p)"
proof -
  from v have len: "length (m_data v) = m_size v" and lt: "m_size v < 2 ^ 31"
    and N: "Internal p \<le> max_size"
    by (simp_all add: valid_vector_def)
  let ?d = "m_data v"
  let ?new_size = "m_size v - (last_pos - first_pos)"
  let ?tail = "drop last_pos ?d"
  from len have tk: "take (m_size v) ?d = ?d" by simp
  show ?thesis
  proof (cases "\<not> m_is_internal v \<and> ?new_size \<le> Internal p")
    case True
    have c: "construct p (take first_pos ?d) ?new_size =
               Inr \<lparr>m_size = first_pos, m_is_internal = True, m_capacity = 0, m_data = take first_pos ?d\<rparr>"
      using construct_result[of "take first_pos ?d" ?new_size p] True f l len lt N by simp
    let ?new_me = "\<lparr>m_size = first_pos, m_is_internal = True, m_capacity = 0,
                    m_data = take first_pos ?d\<rparr> :: 'a compact_vector"
    have fn: "first_pos \<le> ?new_size" using f l by arith
    with True have fN: "first_pos \<le> Internal p" by simp
    have vn: "valid_vector p ?new_me" using fN f l len lt N by (simp add: valid_vector_def)
    have ir: "insert_range p dflt ?new_me first_pos (Outside ?tail) =
                Inr (?new_me\<lparr>m_size := ?new_size, m_data := take first_pos ?d @ ?tail\<rparr>)"
    proof (cases "last_pos = m_size v")
      case True
      with len f show ?thesis
        by (simp add: insert_range_def start_insert_def overwrite_def)
    next
      case False
      with l len have n0: "0 < length ?tail" by simp
      have lm: "length ?tail mod 2 ^ 32 = length ?tail" using len lt by simp
      have "m_size ?new_me + length ?tail < 2 ^ 31" using f l len lt by simp
      from start_insert_result[OF vn n0 _ this, of first_pos dflt] obtain v1 where
        st: "start_insert p dflt ?new_me first_pos (length ?tail) = Inr v1"
        and s1: "m_size v1 = first_pos + length ?tail"
        and d1: "m_data v1 = take first_pos ?d @ take (length ?tail) (replicate (length ?tail) dflt)"
        using f l len by auto
      have same: "v1 = ?new_me\<lparr>m_size := m_size v1, m_data := m_data v1\<rparr>"
        using st n0 f l len True N capacity_internal[OF N]
        by (auto simp: start_insert_def capacity_def room_def split: if_splits)
      have "overwrite first_pos ?tail (m_data v1) = take first_pos ?d @ ?tail"
        unfolding d1 using f l len by (simp add: overwrite_def)
      moreover have "\<not> length (m_data v1) < first_pos + length ?tail"
        unfolding d1 using f l len by simp
      moreover have lm': "(m_size v - last_pos) mod 2 ^ 32 = m_size v - last_pos"
        using lt by simp
      ultimately show ?thesis using st s1 same f l len
        unfolding insert_range_def by (cases v1) (auto simp: lm')
    qed
    have "erase_range p dflt v first_pos last_pos =
            Inr (fst (swap v (?new_me\<lparr>m_size := ?new_size, m_data := take first_pos ?d @ ?tail\<rparr>)))"
      using True f l c ir v by (simp add: erase_range_def tk valid_vector_def)
    with True f l len N lt show ?thesis
      by (auto simp: swap_def swap_internal_external_def valid_vector_def)
  next
    case False
    have "erase_range p dflt v first_pos last_pos =
            Inr (v\<lparr>m_size := ?new_size,
                   m_data := take ?new_size (overwrite first_pos ?tail ?d)\<rparr>)"
      using False f l by (auto simp: erase_range_def tk)
    moreover have "take ?new_size (overwrite first_pos ?tail ?d) = take first_pos ?d @ ?tail"
      using f l len by (simp add: overwrite_def)
    ultimately show ?thesis using False v f l len
      by (auto simp: valid_vector_def split: if_splits)
  qed
qed



text \<open>
  With an element of the vector itself as the range, the identity holds wherever the
  insertion returns.
\<close>

lemma erase_insert_own_element:
  assumes "valid_vector p v" and "index \<le> m_size v" and "a < m_size v"
    and "m_size v + 1 < 2 ^ 31"
    and "insert_range p dflt v index (Within a 1) = Inr v1"
  shows "\<exists>v2. erase_at p dflt v1 index = Inr v2 \<and> equal_by_value v2 v \<and> m_data v2 = m_data v"
proof -
  from assms(1) have len: "length (m_data v) = m_size v" by (simp add: valid_vector_def)
  from insert_own_element_result[OF assms(1-4), of dflt] assms(5)
  have s1: "m_size v1 = m_size v + 1" and v1: "valid_vector p v1"
    and d1: "m_data v1 = take index (m_data v)
                     @ (if a < index then m_data v ! a else m_data v ! (a - 1)) # drop index (m_data v)"
    by (auto split: if_splits)
  have "index < index + 1" "index + 1 \<le> m_size v1" using assms(2) s1 by simp_all
  from erase_range_result[OF v1 this, of dflt] obtain v2 where
    e: "erase_range p dflt v1 index (index + 1) = Inr v2"
    and s2: "m_size v2 = m_size v1 - (index + 1 - index)"
    and d2: "m_data v2 = take index (m_data v1) @ drop (index + 1) (m_data v1)"
    by blast
  from d2 d1 assms(2) len have d: "m_data v2 = m_data v" by simp
  from s2 s1 have s: "m_size v2 = m_size v" by simp
  with e d show ?thesis by (simp add: erase_at_def equal_by_value_def)
qed

text \<open>
  A full inline vector and its own first element: the insertion has to grow the vector
  and reads the element in the storage it has left.
\<close>

lemma insert_own_element_example:
  "insert_range \<lparr>Internal = 2, Safe = True\<rparr> 0
       \<lparr>m_size = 2, m_is_internal = True, m_capacity = 0, m_data = [10, 20 :: nat]\<rparr> 1
       (Within 0 1) = Inl InvalidatedIterator"
  by (simp add: insert_range_def start_insert_def capacity_def reserve_def
          construct_def init_vector_def max_size_def clear_def empty_vector_def room_def
          swap_def swap_internal_external_def overwrite_def)
end
